theory Spec2Isabelle
  imports Main "HOL-Library.RBT" "HOL-Library.List_Lexorder" "HOL-Library.Char_ord"
    "HOL-Library.Word"
begin

unbundle bit_operations_syntax

section \<open>Constants and global data of fast-wc.cpp\<close>

text \<open>
  The embedding follows \<^verbatim>\<open>src/competitors/fast-cpp/fast-wc.cpp\<close>. Positions,
  lengths and loop variables are \<^typ>\<open>nat\<close> or \<^typ>\<open>int\<close>: they are bounded by the sizes
  of the buffers. Bytes are \<^typ>\<open>char\<close>; a C string is the part of a
  \<^typ>\<open>char list\<close> before its first NUL.
\<close>

definition MAXTHREADS :: nat where
  "MAXTHREADS = 64"

definition FDESCS :: nat where
  "FDESCS = MAXTHREADS"

definition BASICBLOCK :: nat where
  "BASICBLOCK = 1024"

definition NUL :: char where
  "NUL = CHR 0x00"

text \<open>
  \<^verbatim>\<open>token_chars\<close> is the table that \<^verbatim>\<open>main\<close> fills from the string of letters,
  digits and underscore: a byte is a token byte when the table holds 1 for it.
\<close>

definition token_str :: string where
  "token_str = ''abcdefghijklmnopqrstuvwxyzABCDEFGHIJKLMNOPQRSTUVWXYZ0123456789_''"

definition token_chars :: "char \<Rightarrow> bool" where
  "token_chars c = (c \<in> set token_str)"

text \<open>
  \<^verbatim>\<open>WordCount\<close> is \<^verbatim>\<open>std::map<std::string, int>\<close>: a red-black tree ordered by the
  lexicographic byte order of its keys. \<^verbatim>\<open>m[w] += c\<close> inserts the key with the value 0
  when it is absent and then adds.
\<close>

type_synonym WordCount = "(string, int) rbt"

definition wc_get :: "WordCount \<Rightarrow> string \<Rightarrow> int" where
  "wc_get m w = (case RBT.lookup m w of None \<Rightarrow> 0 | Some v \<Rightarrow> v)"

definition wc_add :: "string \<Rightarrow> int \<Rightarrow> WordCount \<Rightarrow> WordCount" where
  "wc_add w c m = RBT.insert w (wc_get m w + c) m"

text \<open>
  The lines that \<^verbatim>\<open>printf\<close> writes, one constructor per format string (the banner
  and the usage messages of \<^verbatim>\<open>main\<close> are left out).
\<close>

datatype printed =
    Word_unreasonably_long string string int
  | Unable_to_open string
  | Found_files string int
  | Expected_to_scan int int
  | Blocks_scanned int int
  | Report_line string int

text \<open>
  The four counters are \<^verbatim>\<open>std::atomic_int\<close>. \<^verbatim>\<open>blocks_scanned\<close> and
  \<^verbatim>\<open>bytes_scanned\<close> grow with the bytes read and are 32-bit words: an addition wraps
  around, and \<^verbatim>\<open>%d\<close> prints the signed value. \<^verbatim>\<open>file_count\<close> and
  \<^verbatim>\<open>expected_file_count\<close> count files and are \<^typ>\<open>int\<close>: \<^verbatim>\<open>fopener\<close> keeps the
  number of files in its \<^verbatim>\<open>int nfiles\<close>, and a run with \<open>2^31\<close> files or more is
  outside the model.
\<close>

record globals =
  sub_count :: "WordCount list"
  file_count :: int
  expected_file_count :: int
  blocks_scanned :: "32 word"
  bytes_scanned :: "32 word"
  stdout :: "printed list"

section \<open>Recording a word\<close>

text \<open>\<^verbatim>\<open>std::string(word)\<close>: the bytes from position \<open>i\<close> up to the first NUL.\<close>

definition cstr :: "string \<Rightarrow> nat \<Rightarrow> string" where
  "cstr buf i = takeWhile (\<lambda>c. c \<noteq> NUL) (drop i buf)"

text \<open>\<^verbatim>\<open>found(tn, word)\<close>: \<^verbatim>\<open>sub_count[tn][std::string(word)]++\<close>.\<close>

definition found :: "nat \<Rightarrow> string \<Rightarrow> globals \<Rightarrow> globals" where
  "found tn word g = g\<lparr>sub_count := (sub_count g)[tn := wc_add word 1 (sub_count g ! tn)]\<rparr>"

text \<open>
  \<^verbatim>\<open>found(tn, prefix, suffix)\<close>, the overload for a word split over two reads. Both
  arguments are C strings; the early return after the \<^verbatim>\<open>printf\<close> leaves the tables
  as they are.
\<close>

definition found_split :: "nat \<Rightarrow> string \<Rightarrow> string \<Rightarrow> globals \<Rightarrow> globals" where
  "found_split tn prefix suffix g =
     (let plen = int (length prefix); slen = int (length suffix) in
      if plen + slen \<ge> 1023
      then g\<lparr>stdout := stdout g @ [Word_unreasonably_long prefix suffix (plen + slen)]\<rparr>
      else found tn (prefix @ suffix) g)"

text \<open>
  \<^verbatim>\<open>found_something(n, buffer, prefix, sptr)\<close>. \<open>prefix\<close> is \<open>None\<close> for the null
  pointer and \<open>Some p\<close> when it points to \<^verbatim>\<open>prefix_copy\<close>, whose bytes are \<open>p\<close>.
  The function returns the new \<open>prefix\<close> and \<open>sptr\<close> with the globals.
\<close>

definition found_something ::
  "nat \<Rightarrow> string \<Rightarrow> string option \<Rightarrow> int \<Rightarrow> globals \<Rightarrow> string option \<times> int \<times> globals" where
  "found_something n buffer prefix sptr g =
     (case prefix of
        Some p \<Rightarrow>
          (if sptr \<noteq> -1
           then (None, -1, found_split n (cstr p 0) (cstr buffer (nat sptr)) g)
           else (None, -1, found n (cstr p 0) g))
      | None \<Rightarrow>
          (if sptr \<noteq> -1
           then (None, -1, found n (cstr buffer (nat sptr)) g)
           else (None, -1, g)))"

section \<open>The block scanner of wcounter\<close>

text \<open>
  The state of the scanning loops: the read buffer, \<open>prefix\<close>, \<open>sptr\<close> and the
  globals. After a read of \<open>nbytes\<close> bytes the model's buffer is the block followed by
  the NUL that \<^verbatim>\<open>buffer[nbytes] = 0\<close> writes; the bytes of the 128 KiB array behind
  that NUL are never read before the next \<^verbatim>\<open>read\<close> and are left out.
\<close>

type_synonym scan_state = "string \<times> string option \<times> int \<times> globals"

text \<open>The loop \<^verbatim>\<open>while (cptr < nbytes)\<close> over one block.\<close>

function inner_loop :: "nat \<Rightarrow> nat \<Rightarrow> nat \<Rightarrow> scan_state \<Rightarrow> scan_state" where
  "inner_loop n nbytes cptr (buffer, prefix, sptr, g) =
     (if cptr < nbytes then
        (if token_chars (buffer ! cptr)
         then inner_loop n nbytes (cptr + 1)
                (buffer, prefix, (if sptr = -1 then int cptr else sptr), g)
         else
           (let buffer' = buffer[cptr := NUL];
                (prefix', sptr', g') = found_something n buffer' prefix sptr g
            in inner_loop n nbytes (cptr + 1) (buffer', prefix', -1, g')))
      else (buffer, prefix, sptr, g))"
  by pat_completeness auto
termination
  by (relation "measure (\<lambda>(n, nbytes, cptr, s). nbytes - cptr)") auto

text \<open>
  The block after the inner loop (\<^verbatim>\<open>if (cptr == nbytes && sptr != -1)\<close>; the loop
  always ends with \<open>cptr = nbytes\<close>): the fragment at the end of the buffer is copied
  into \<^verbatim>\<open>prefix_copy\<close>, a \<^verbatim>\<open>char[1024]\<close>, and NUL-terminated. A fragment of
  1024 bytes or more writes past the array; that undefined behaviour is the fault
  \<open>Prefix_overflow\<close>. The other faults are an access outside an array of
  \<^verbatim>\<open>MAXTHREADS\<close> elements, the use of a null pointer in \<^verbatim>\<open>ready_for_merge\<close>,
  \<^verbatim>\<open>opencount.release\<close> called with a negative number, and the write
  \<^verbatim>\<open>buffer[BLOCKSIZE] = 0\<close> with a negative \<^verbatim>\<open>BLOCKSIZE\<close>.
\<close>

datatype fault =
    Prefix_overflow nat
  | Index_out_of_bounds nat
  | Null_dereference nat
  | Negative_release int
  | Negative_block_size int

definition save_prefix :: "nat \<Rightarrow> scan_state \<Rightarrow> fault + scan_state" where
  "save_prefix nbytes s =
     (case s of (buffer, prefix, sptr, g) \<Rightarrow>
        if sptr \<noteq> -1 then
          (let len = nbytes - nat sptr in
           if len \<ge> 1024 then Inl (Prefix_overflow len)
           else Inr (buffer, Some (take len (drop (nat sptr) buffer) @ [NUL]), -1, g))
        else Inr (buffer, prefix, sptr, g))"

text \<open>
  The counters a read updates: \<^verbatim>\<open>++blocks_scanned; bytes_scanned += nbytes\<close>, both
  modulo \<open>2^32\<close>.
\<close>

definition scanned :: "nat \<Rightarrow> globals \<Rightarrow> globals" where
  "scanned nbytes g = g\<lparr>blocks_scanned := blocks_scanned g + 1,
                         bytes_scanned := bytes_scanned g + of_nat nbytes\<rparr>"

text \<open>
  The loop \<^verbatim>\<open>while ((nbytes = read(fdesc, buffer, BLOCKSIZE)) > 0)\<close>. The descriptor
  is a regular file, modelled by the bytes not yet read: \<^verbatim>\<open>read\<close> returns the next
  \<open>BLOCKSIZE\<close> bytes, or all that is left when that is less, and 0 at the end.
\<close>

function read_loop :: "nat \<Rightarrow> nat \<Rightarrow> string \<Rightarrow> scan_state \<Rightarrow> fault + scan_state" where
  "read_loop BLOCKSIZE n rest (buffer, prefix, sptr, g) =
     (let nbytes = min BLOCKSIZE (length rest) in
      if nbytes > 0 then
        (let buffer1 = take nbytes rest @ [NUL];
             g1 = scanned nbytes g
         in case save_prefix nbytes (inner_loop n nbytes 0 (buffer1, prefix, sptr, g1)) of
              Inl e \<Rightarrow> Inl e
            | Inr s \<Rightarrow> read_loop BLOCKSIZE n (drop nbytes rest) s)
      else Inr (buffer, prefix, sptr, g))"
  by pat_completeness auto
termination
  by (relation "measure (\<lambda>(B, n, rest, s). length rest)") auto

text \<open>
  One claimed file in \<^verbatim>\<open>wcounter\<close>, from \<^verbatim>\<open>char *prefix = nullptr; int sptr = -1\<close>
  to the \<^verbatim>\<open>found_something\<close> after the read loop. \<open>buffer\<close> is what the worker's
  buffer holds from the file before; the result does not depend on it (lemma
  \<open>wcounter_file_buffer\<close>).
\<close>

definition wcounter_file :: "nat \<Rightarrow> nat \<Rightarrow> string \<Rightarrow> string \<Rightarrow> globals \<Rightarrow> fault + globals" where
  "wcounter_file BLOCKSIZE n content buffer g =
     (case read_loop BLOCKSIZE n content (buffer, None, -1, g) of
        Inl e \<Rightarrow> Inl e
      | Inr (buffer', prefix, sptr, g') \<Rightarrow>
          (case found_something n buffer' prefix sptr g' of
             (prefix', sptr', g'') \<Rightarrow> Inr g''))"

section \<open>Reduction\<close>

text \<open>
  Folding one table into another, as both reductions do:
  \<^verbatim>\<open>for (auto wc : src) dst[wc.first] += wc.second\<close>. The iteration visits the
  entries of \<open>src\<close> in key order.
\<close>

definition merge_into :: "WordCount \<Rightarrow> WordCount \<Rightarrow> WordCount" where
  "merge_into src dst = RBT.fold (\<lambda>w c m. wc_add w c m) src dst"

text \<open>
  The sequential fold of \<^verbatim>\<open>main\<close>: a new table \<^verbatim>\<open>totals\<close> receives
  \<^verbatim>\<open>sub_count[0]\<close>, ..., \<^verbatim>\<open>sub_count[nthreads - 1]\<close> in that order.
\<close>

definition sequential_totals :: "nat \<Rightarrow> WordCount list \<Rightarrow> WordCount" where
  "sequential_totals nthreads sc =
     fold (\<lambda>n totals. merge_into (sc ! n) totals) [0..<nthreads] RBT.empty"

text \<open>
  The parallel merge is the work of the workers after the end marker, each waiting for
  its partners; it is part of the worker's steps in the section on the threads of a run.
\<close>

section \<open>The sorted report\<close>

text \<open>\<^verbatim>\<open>DefineSortOrder::operator()\<close> on (count, word) pairs.\<close>

definition DefineSortOrder :: "int \<times> string \<Rightarrow> int \<times> string \<Rightarrow> bool" where
  "DefineSortOrder lhs rhs =
     (fst lhs > fst rhs \<or> (fst lhs = fst rhs \<and> snd lhs < snd rhs))"

text \<open>
  \<^verbatim>\<open>SortOrder\<close> is a \<^verbatim>\<open>std::map\<close> under that comparison: its entries in iteration
  order, keys unique up to the comparison. \<^verbatim>\<open>sorted_totals[k] = v\<close> overwrites the
  value of an equivalent key and inserts the pair in its place otherwise.
\<close>

type_synonym SortOrder = "((int \<times> string) \<times> (string \<times> int)) list"

fun so_assign :: "int \<times> string \<Rightarrow> string \<times> int \<Rightarrow> SortOrder \<Rightarrow> SortOrder" where
  "so_assign k v [] = [(k, v)]"
| "so_assign k v ((k', v') # xs) =
     (if DefineSortOrder k k' then (k, v) # (k', v') # xs
      else if DefineSortOrder k' k then (k', v') # so_assign k v xs
      else (k', v) # xs)"

text \<open>
  \<^verbatim>\<open>for (auto [word, count] : totals) sorted_totals[{count, word}] = {word, count}\<close>
\<close>

definition sort_totals :: "WordCount \<Rightarrow> SortOrder" where
  "sort_totals totals =
     RBT.fold (\<lambda>word count st. so_assign (count, word) (word, count) st) totals []"

text \<open>The lines of the report, \<^verbatim>\<open>w.second.first\<close> and \<^verbatim>\<open>w.second.second\<close> of each entry.\<close>

definition report :: "SortOrder \<Rightarrow> (string \<times> int) list" where
  "report st = map snd st"

section \<open>Options and thread start in main\<close>

record config =
  nthreads :: int
  nblocks :: int
  parallel_merge :: bool
  silent :: bool

definition default_config :: config where
  "default_config = \<lparr>nthreads = 1, nblocks = 16, parallel_merge = False, silent = False\<rparr>"

text \<open>
  \<^verbatim>\<open>atoi\<close>: white space, an optional sign, then decimal digits. A value outside
  \<^verbatim>\<open>int\<close> is undefined in C and is not modelled.
\<close>

definition isspace :: "char \<Rightarrow> bool" where
  "isspace c = (c \<in> set [CHR '' '', CHR 0x09, CHR 0x0A, CHR 0x0B, CHR 0x0C, CHR 0x0D])"

definition isdigit :: "char \<Rightarrow> bool" where
  "isdigit c = (c \<in> set ''0123456789'')"

fun digits :: "string \<Rightarrow> int \<Rightarrow> int" where
  "digits [] acc = acc"
| "digits (c # cs) acc =
     (if isdigit c then digits cs (acc * 10 + (int (of_char c) - 48)) else acc)"

definition atoi :: "string \<Rightarrow> int" where
  "atoi s =
     (case dropWhile isspace s of
        [] \<Rightarrow> 0
      | c # cs \<Rightarrow>
          if c = CHR ''-'' then - digits cs 0
          else if c = CHR ''+'' then digits cs 0
          else digits (c # cs) 0)"

datatype exit_code = Usage | No_directory_specified

text \<open>
  The option loop \<^verbatim>\<open>while (--argc && **(++argv) == '-')\<close> over the arguments after
  the program name; it returns the options and the arguments left. \<^verbatim>\<open>argv[0][1]\<close>
  of the argument \<^verbatim>\<open>"-"\<close> is its terminating NUL.
\<close>

fun parse_options :: "string list \<Rightarrow> config \<Rightarrow> exit_code + config \<times> string list" where
  "parse_options [] cfg = Inr (cfg, [])"
| "parse_options (a # as) cfg =
     (if a \<noteq> [] \<and> hd a = CHR ''-'' then
        (let opt = (case tl a of [] \<Rightarrow> NUL | c # _ \<Rightarrow> c) in
         if opt = CHR ''n'' then parse_options as (cfg\<lparr>nthreads := atoi (drop 2 a)\<rparr>)
         else if opt = CHR ''b'' then parse_options as (cfg\<lparr>nblocks := min (atoi (drop 2 a)) 127\<rparr>)
         else if opt = CHR ''p'' then parse_options as (cfg\<lparr>parallel_merge := True\<rparr>)
         else if opt = CHR ''s'' then parse_options as (cfg\<lparr>silent := True\<rparr>)
         else Inl Usage)
      else Inr (cfg, a # as))"

definition main_options :: "string list \<Rightarrow> exit_code + config \<times> string" where
  "main_options args =
     (case parse_options args default_config of
        Inl e \<Rightarrow> Inl e
      | Inr (cfg, rest) \<Rightarrow>
          (case rest of [] \<Rightarrow> Inl No_directory_specified | dir # _ \<Rightarrow> Inr (cfg, dir)))"

text \<open>
  The loop that starts the workers,
  \<^verbatim>\<open>for (n = 0; n < nthreads; n++) { ready_for_merge[n] = ...; my_threads[n] = ...; }\<close>.
  Both arrays have \<^verbatim>\<open>MAXTHREADS\<close> elements, as have \<^verbatim>\<open>buffers\<close> and
  \<^verbatim>\<open>sub_count\<close>, which worker \<open>n\<close> indexes with \<open>n\<close>. A write at an index that is
  not below \<^verbatim>\<open>MAXTHREADS\<close> is outside the array: the fault \<open>Index_out_of_bounds\<close>.
  The result lists the workers started.
\<close>

fun start_loop :: "nat list \<Rightarrow> nat list \<Rightarrow> fault + nat list" where
  "start_loop [] started = Inr started"
| "start_loop (n # ns) started =
     (if n < MAXTHREADS then start_loop ns (started @ [n]) else Inl (Index_out_of_bounds n))"

definition start_threads :: "int \<Rightarrow> fault + nat list" where
  "start_threads N = start_loop [0..<nat N] []"

section \<open>The handle queue and its two semaphores\<close>

text \<open>
  The queue is the array \<^verbatim>\<open>fdescs\<close> with the cursors \<^verbatim>\<open>free_ptr\<close> and
  \<^verbatim>\<open>next_ptr\<close> and the semaphores \<^verbatim>\<open>fcount\<close> (free slots, \<^verbatim>\<open>FDESCS\<close> at the
  start) and \<^verbatim>\<open>opencount\<close> (handles to claim). A semaphore is its count; an
  \<^verbatim>\<open>acquire\<close> at 0 blocks. Each thread is a program of its own: the producer with
  the results of \<^verbatim>\<open>open\<close> still to come (\<open>-1\<close> for a failure) or the number of end
  markers written, a worker before a claim, with a claimed descriptor, or returned.
\<close>

datatype producer_pc = P_open "int list" | P_end nat | P_done

datatype worker_pc = W_claim | W_have int | W_exit

record queue =
  fcount :: nat
  opencount :: nat
  free_ptr :: nat
  next_ptr :: nat
  fdescs :: "int list"
  claimed_count :: int
  producer :: producer_pc
  workers :: "worker_pc list"

definition initial_queue :: "nat \<Rightarrow> int list \<Rightarrow> queue" where
  "initial_queue N opens =
     \<lparr>fcount = FDESCS, opencount = 0, free_ptr = 0, next_ptr = 0,
      fdescs = replicate FDESCS 0, claimed_count = 0,
      producer = P_open opens, workers = replicate N W_claim\<rparr>"

text \<open>
  One step of \<^verbatim>\<open>fopener\<close>: an iteration of the loop over the files, an iteration of
  the loop that writes the end markers, or the final \<^verbatim>\<open>opencount.release(nthreads)\<close>.
  \<open>None\<close>: the thread is blocked in \<^verbatim>\<open>fcount.acquire()\<close>, or has returned.
\<close>

definition fopener_step :: "nat \<Rightarrow> queue \<Rightarrow> queue option" where
  "fopener_step N q =
     (case producer q of
        P_open [] \<Rightarrow> Some (q\<lparr>producer := P_end 0\<rparr>)
      | P_open (fd # fds) \<Rightarrow>
          if fcount q = 0 then None
          else
            (let q1 = q\<lparr>fcount := fcount q - 1,
                        fdescs := (fdescs q)[free_ptr q mod FDESCS := fd]\<rparr>
             in if fd = -1 then Some (q1\<lparr>producer := P_open fds\<rparr>)
                else Some (q1\<lparr>opencount := opencount q1 + 1, free_ptr := free_ptr q1 + 1,
                                producer := P_open fds\<rparr>))
      | P_end n \<Rightarrow>
          if n < N then
            (if fcount q = 0 then None
             else Some (q\<lparr>fcount := fcount q - 1,
                           fdescs := (fdescs q)[free_ptr q mod FDESCS := -2],
                           free_ptr := free_ptr q + 1, producer := P_end (n + 1)\<rparr>))
          else Some (q\<lparr>opencount := opencount q + N, producer := P_done\<rparr>)
      | P_done \<Rightarrow> None)"

text \<open>
  One step of worker \<open>i\<close> in \<^verbatim>\<open>wcounter\<close>: the claim under the lock, or what follows
  it, which ends with \<^verbatim>\<open>fcount.release()\<close> for a file and for the end marker alike.
  \<open>None\<close>: the worker is blocked in \<^verbatim>\<open>opencount.acquire()\<close>, or has returned.
\<close>

definition wcounter_step :: "nat \<Rightarrow> queue \<Rightarrow> queue option" where
  "wcounter_step i q =
     (if i < length (workers q) then
        (case workers q ! i of
           W_claim \<Rightarrow>
             if opencount q = 0 then None
             else
               (let slot = next_ptr q mod FDESCS; fdesc = fdescs q ! slot
                in Some (q\<lparr>opencount := opencount q - 1, next_ptr := next_ptr q + 1,
                            fdescs := (fdescs q)[slot := 0],
                            claimed_count := claimed_count q + 1,
                            workers := (workers q)[i := W_have fdesc]\<rparr>))
         | W_have fdesc \<Rightarrow>
             if fdesc = -2
             then Some (q\<lparr>claimed_count := claimed_count q - 1, fcount := fcount q + 1,
                           workers := (workers q)[i := W_exit]\<rparr>)
             else Some (q\<lparr>fcount := fcount q + 1, workers := (workers q)[i := W_claim]\<rparr>)
         | W_exit \<Rightarrow> None)
      else None)"

datatype thread = Producer | Worker nat

definition thread_step :: "nat \<Rightarrow> thread \<Rightarrow> queue \<Rightarrow> queue option" where
  "thread_step N t q = (case t of Producer \<Rightarrow> fopener_step N q | Worker i \<Rightarrow> wcounter_step i q)"

text \<open>An interleaving of the threads: the steps taken, in order.\<close>

fun run_schedule :: "nat \<Rightarrow> thread list \<Rightarrow> queue \<Rightarrow> queue option" where
  "run_schedule N [] q = Some q"
| "run_schedule N (t # ts) q =
     (case thread_step N t q of None \<Rightarrow> None | Some q' \<Rightarrow> run_schedule N ts q')"

text \<open>Handles submitted and not yet claimed.\<close>

definition unclaimed :: "queue \<Rightarrow> nat" where
  "unclaimed q = free_ptr q - next_ptr q"

definition finished :: "queue \<Rightarrow> bool" where
  "finished q = (producer q = P_done \<and> list_all (\<lambda>w. w = W_exit) (workers q))"

text \<open>No thread can take a step, and not all of them have returned.\<close>

definition stalled :: "nat \<Rightarrow> queue \<Rightarrow> bool" where
  "stalled N q =
     (\<not> finished q \<and> fopener_step N q = None
      \<and> list_all (\<lambda>i. wcounter_step i q = None) [0..<length (workers q)])"

section \<open>The threads of a run\<close>

text \<open>
  The files that \<^verbatim>\<open>utils::find_all_files\<close> returns, each with what \<^verbatim>\<open>open\<close> does
  on it: it fails, or it gives a descriptor on the file's bytes.
\<close>

datatype source_file = Unopenable string | Opened string string

definition path_of :: "source_file \<Rightarrow> string" where
  "path_of f = (case f of Unopenable path \<Rightarrow> path | Opened path content \<Rightarrow> path)"

text \<open>
  \<^verbatim>\<open>fopener\<close> visits the files from the last to the first; \<open>visit\<close> is the list in
  that order. The descriptor that \<^verbatim>\<open>open\<close> returns for the \<open>k\<close>-th file visited is
  \<open>k + 3\<close> in the model (the system reuses the numbers of closed descriptors; the
  program only passes the number on to \<^verbatim>\<open>read\<close> and \<^verbatim>\<open>close\<close>), and \<open>-1\<close> is a
  failure. \<open>content_of\<close> is the file behind a descriptor; \<^verbatim>\<open>read\<close> on any other number
  returns no bytes.
\<close>

definition open_file :: "nat \<Rightarrow> source_file \<Rightarrow> int" where
  "open_file k f = (case f of Unopenable path \<Rightarrow> -1 | Opened path content \<Rightarrow> int k + 3)"

definition opens_of :: "source_file list \<Rightarrow> int list" where
  "opens_of visit = map (\<lambda>k. open_file k (visit ! k)) [0..<length visit]"

definition content_of :: "source_file list \<Rightarrow> int \<Rightarrow> string" where
  "content_of visit fdesc =
     (if 3 \<le> fdesc \<and> nat (fdesc - 3) < length visit
      then (case visit ! nat (fdesc - 3) of
              Opened path content \<Rightarrow> content
            | Unopenable path \<Rightarrow> [])
      else [])"

definition initial_globals :: globals where
  "initial_globals =
     \<lparr>sub_count = replicate MAXTHREADS RBT.empty, file_count = 0, expected_file_count = 0,
      blocks_scanned = 0, bytes_scanned = 0, stdout = []\<rparr>"

text \<open>
  The first lines of \<^verbatim>\<open>fopener\<close> after the directory has been listed: the block under
  \<^verbatim>\<open>if (!silent)\<close>, which prints the number of files and stores it in
  \<^verbatim>\<open>expected_file_count\<close>.
\<close>

definition fopener_found :: "config \<Rightarrow> string \<Rightarrow> nat \<Rightarrow> globals \<Rightarrow> globals" where
  "fopener_found cfg dir nfiles g =
     (if \<not> silent cfg
      then g\<lparr>stdout := stdout g @ [Found_files dir (int nfiles)],
              expected_file_count := int nfiles\<rparr>
      else g)"

text \<open>
  The state of the process while its threads run. \<^verbatim>\<open>main\<close> is in its loop
  \<^verbatim>\<open>for (n = 0; n < nthreads; n++)\<close> before the statement
  \<^verbatim>\<open>ready_for_merge[n] = new std::counting_semaphore<1>(0)\<close> (\<open>Main_alloc n\<close>) or
  before \<^verbatim>\<open>my_threads[n] = std::thread(wcounter, n)\<close> (\<open>Main_start n\<close>), or it waits
  in the joins. A worker is in the loop that claims descriptors, where the queue has its
  position; or in the loop of the parallel merge with the loop variables
  \<^verbatim>\<open>partner\<close> and \<^verbatim>\<open>bit\<close>, or between the two, which is \<open>In_merge 1 1\<close> as well; or
  it has returned. \<^verbatim>\<open>ready_for_merge\<close> holds \<open>None\<close> for a null pointer and the
  count of the semaphore otherwise. \<open>enumerated\<close> tells whether \<^verbatim>\<open>fopener\<close> has
  passed its first lines. \<open>files_done\<close> and \<open>scan_tables\<close> are not variables of the
  program: they record the number of files that workers have scanned to their end, and
  for each worker the table it has when it leaves the queue, which is the table of the
  words in the files it has scanned.
\<close>

datatype main_pc = Main_alloc nat | Main_start nat | Main_join

datatype merge_pc = In_queue | In_merge nat nat | Worker_returned

record system =
  queue_of :: queue
  globals_of :: globals
  enumerated :: bool
  main_at :: main_pc
  ready_for_merge :: "nat option list"
  merge_at :: "merge_pc list"
  files_done :: nat
  scan_tables :: "WordCount list"

definition initial_system :: "config \<Rightarrow> source_file list \<Rightarrow> system" where
  "initial_system cfg visit =
     \<lparr>queue_of = initial_queue (nat (nthreads cfg)) (opens_of visit),
      globals_of = initial_globals, enumerated = False, main_at = Main_alloc 0,
      ready_for_merge = replicate MAXTHREADS None,
      merge_at = replicate (nat (nthreads cfg)) In_queue, files_done = 0,
      scan_tables = replicate MAXTHREADS RBT.empty\<rparr>"

text \<open>
  A step of a thread gives the next state, or the thread is blocked (in an
  \<^verbatim>\<open>acquire\<close>, in a join, or because it has returned or does not exist yet), or the
  step is a fault, which ends the process.
\<close>

datatype step = Blocked | Crashed fault | Next system

text \<open>
  \<^verbatim>\<open>main\<close> from the start of the workers to the joins. Worker \<open>n\<close> exists once
  \<^verbatim>\<open>main\<close> has passed \<open>Main_start n\<close>.
\<close>

definition main_step :: "config \<Rightarrow> system \<Rightarrow> step" where
  "main_step cfg s =
     (case main_at s of
        Main_alloc n \<Rightarrow>
          if int n < nthreads cfg then
            (if n < MAXTHREADS
             then Next (s\<lparr>ready_for_merge := (ready_for_merge s)[n := Some 0],
                           main_at := Main_start n\<rparr>)
             else Crashed (Index_out_of_bounds n))
          else Next (s\<lparr>main_at := Main_join\<rparr>)
      | Main_start n \<Rightarrow> Next (s\<lparr>main_at := Main_alloc (n + 1)\<rparr>)
      | Main_join \<Rightarrow> Blocked)"

definition running :: "config \<Rightarrow> system \<Rightarrow> nat \<Rightarrow> bool" where
  "running cfg s i =
     (case main_at s of
        Main_alloc n \<Rightarrow> i < n
      | Main_start n \<Rightarrow> i < n
      | Main_join \<Rightarrow> int i < nthreads cfg)"

text \<open>
  \<^verbatim>\<open>fopener\<close>: its first lines, then the steps on the queue, where a failed
  \<^verbatim>\<open>open\<close> also prints its message. \<^verbatim>\<open>opencount.release(nthreads)\<close> requires a
  number that is not negative.
\<close>

definition fopener_sys_step :: "config \<Rightarrow> string \<Rightarrow> source_file list \<Rightarrow> system \<Rightarrow> step" where
  "fopener_sys_step cfg dir visit s =
     (if \<not> enumerated s
      then Next (s\<lparr>enumerated := True,
                    globals_of := fopener_found cfg dir (length visit) (globals_of s)\<rparr>)
      else
        (case fopener_step (nat (nthreads cfg)) (queue_of s) of
           None \<Rightarrow> Blocked
         | Some q' \<Rightarrow>
             (case producer (queue_of s) of
                P_open (fd # fds) \<Rightarrow>
                  if fd = -1
                  then Next (s\<lparr>queue_of := q',
                                globals_of := (globals_of s)
                                  \<lparr>stdout := stdout (globals_of s)
                                     @ [Unable_to_open
                                          (path_of (visit ! (length visit - Suc (length fds))))]\<rparr>\<rparr>)
                  else Next (s\<lparr>queue_of := q'\<rparr>)
              | P_end n \<Rightarrow>
                  if nthreads cfg < 0 then Crashed (Negative_release (nthreads cfg))
                  else Next (s\<lparr>queue_of := q'\<rparr>)
              | _ \<Rightarrow> Next (s\<lparr>queue_of := q'\<rparr>))))"

text \<open>
  The end of \<^verbatim>\<open>wcounter\<close>, \<^verbatim>\<open>ready_for_merge[n]->release(); return\<close>, at both places
  where it stands.
\<close>

definition release_own :: "nat \<Rightarrow> system \<Rightarrow> step" where
  "release_own i s =
     (case ready_for_merge s ! i of
        None \<Rightarrow> Crashed (Null_dereference i)
      | Some c \<Rightarrow> Next (s\<lparr>ready_for_merge := (ready_for_merge s)[i := Some (c + 1)],
                          merge_at := (merge_at s)[i := Worker_returned]\<rparr>))"

text \<open>
  Worker \<open>i\<close>. \<^verbatim>\<open>BLOCKSIZE\<close> is \<^verbatim>\<open>nblocks * BASICBLOCK\<close>, at most
  \<open>127 * 1024\<close>, which is inside the worker's buffer; the worker begins with
  \<^verbatim>\<open>buffer[BLOCKSIZE] = 0\<close>, so with a negative \<^verbatim>\<open>nblocks\<close> its first step is a
  fault. In the queue the worker takes the step of the queue, together with
  \<^verbatim>\<open>file_count++\<close> for the claim, \<^verbatim>\<open>--file_count\<close> for the end marker, and the scan
  of the file for any other descriptor. The tables are private to their workers until
  the merge and the counters are atomic sums, so the scan of a file is one step.
  After the end marker a step is one test of the merge loop with what follows it: the
  return, or the \<^verbatim>\<open>acquire\<close> on the partner's semaphore with the fold of the
  partner's table into the worker's own.
\<close>

definition wcounter_sys_step :: "config \<Rightarrow> source_file list \<Rightarrow> nat \<Rightarrow> system \<Rightarrow> step" where
  "wcounter_sys_step cfg visit i s =
     (if \<not> (running cfg s i \<and> i < length (merge_at s)) then Blocked
      else if nblocks cfg < 0 then Crashed (Negative_block_size (nblocks cfg * int BASICBLOCK))
      else
        (case merge_at s ! i of
           In_queue \<Rightarrow>
             (case wcounter_step i (queue_of s) of
                None \<Rightarrow> Blocked
              | Some q' \<Rightarrow>
                  (case workers (queue_of s) ! i of
                     W_claim \<Rightarrow>
                       Next (s\<lparr>queue_of := q',
                               globals_of := (globals_of s)
                                 \<lparr>file_count := file_count (globals_of s) + 1\<rparr>\<rparr>)
                   | W_have fdesc \<Rightarrow>
                       if fdesc = -2
                       then Next (s\<lparr>queue_of := q',
                                     globals_of := (globals_of s)
                                       \<lparr>file_count := file_count (globals_of s) - 1\<rparr>,
                                     merge_at := (merge_at s)[i := In_merge 1 1],
                                     scan_tables := (scan_tables s)
                                       [i := sub_count (globals_of s) ! i]\<rparr>)
                       else
                         (case wcounter_file (nat (nblocks cfg) * BASICBLOCK) i
                                 (content_of visit fdesc) [] (globals_of s) of
                            Inl e \<Rightarrow> Crashed e
                          | Inr g' \<Rightarrow>
                              Next (s\<lparr>queue_of := q', globals_of := g',
                                      files_done := files_done s + 1\<rparr>))
                   | W_exit \<Rightarrow> Blocked))
         | In_merge partner b \<Rightarrow>
             if parallel_merge cfg \<and> int (i + partner) < nthreads cfg then
               (if i AND b \<noteq> 0 then release_own i s
                else if MAXTHREADS \<le> i + partner
                then Crashed (Index_out_of_bounds (i + partner))
                else
                  (case ready_for_merge s ! (i + partner) of
                     None \<Rightarrow> Crashed (Null_dereference (i + partner))
                   | Some c \<Rightarrow>
                       if c = 0 then Blocked
                       else
                         Next (s\<lparr>ready_for_merge :=
                                   (ready_for_merge s)[i + partner := Some (c - 1)],
                                 globals_of := (globals_of s)
                                   \<lparr>sub_count := (sub_count (globals_of s))
                                      [i := merge_into (sub_count (globals_of s) ! (i + partner))
                                              (sub_count (globals_of s) ! i)]\<rparr>,
                                 merge_at := (merge_at s)[i := In_merge (2 * partner) (2 * b)]\<rparr>)))
             else release_own i s
         | Worker_returned \<Rightarrow> Blocked))"

datatype sys_thread = Main_thread | Fopener_thread | Wcounter_thread nat

definition sys_step :: "config \<Rightarrow> string \<Rightarrow> source_file list \<Rightarrow> sys_thread \<Rightarrow> system \<Rightarrow> step" where
  "sys_step cfg dir visit t s =
     (case t of
        Main_thread \<Rightarrow> main_step cfg s
      | Fopener_thread \<Rightarrow> fopener_sys_step cfg dir visit s
      | Wcounter_thread i \<Rightarrow> wcounter_sys_step cfg visit i s)"

text \<open>
  An interleaving of the threads is the list of the steps taken, in order; a list that
  asks a blocked thread for a step is no interleaving of the program.
\<close>

fun steps :: "config \<Rightarrow> string \<Rightarrow> source_file list \<Rightarrow> sys_thread list \<Rightarrow> system \<Rightarrow> step" where
  "steps cfg dir visit [] s = Next s"
| "steps cfg dir visit (t # ts) s =
     (case sys_step cfg dir visit t s of
        Next s' \<Rightarrow> steps cfg dir visit ts s'
      | Blocked \<Rightarrow> Blocked
      | Crashed e \<Rightarrow> Crashed e)"

text \<open>
  The threads of a run over the files listed, from the moment \<^verbatim>\<open>main\<close> has started
  \<^verbatim>\<open>fopener\<close>, under an interleaving.
\<close>

definition run_threads :: "config \<Rightarrow> string \<Rightarrow> source_file list \<Rightarrow> sys_thread list \<Rightarrow> step" where
  "run_threads cfg dir files sched =
     steps cfg dir (rev files) sched (initial_system cfg (rev files))"

text \<open>
  The joins of \<^verbatim>\<open>main\<close> return when every worker and \<^verbatim>\<open>fopener\<close> have returned.
\<close>

definition joined :: "system \<Rightarrow> bool" where
  "joined s =
     (main_at s = Main_join \<and> producer (queue_of s) = P_done
      \<and> list_all (\<lambda>m. m = Worker_returned) (merge_at s))"

text \<open>
  \<^verbatim>\<open>main\<close> after the joins: \<open>Exited\<close> is one of the two \<^verbatim>\<open>exit(0)\<close>, \<open>Returned\<close>
  the \<^verbatim>\<open>return 0\<close> at the end, with \<^verbatim>\<open>sorted_totals\<close> as built; both carry what the
  process has printed.
\<close>

datatype main_result = Exited "printed list" | Returned SortOrder "printed list"

definition main_finish :: "config \<Rightarrow> globals \<Rightarrow> main_result" where
  "main_finish cfg g =
     (if file_count g \<noteq> expected_file_count g
      then Exited (stdout g @ [Expected_to_scan (expected_file_count g) (file_count g)])
      else
        (let out = (if \<not> silent cfg
                    then stdout g @ [Blocks_scanned (sint (blocks_scanned g))
                                       (sint (bytes_scanned g))]
                    else stdout g)
         in
           if \<not> silent cfg \<and> (blocks_scanned g = 0 \<or> bytes_scanned g = 0) then Exited out
           else
             (let sorted_totals =
                    (if \<not> parallel_merge cfg
                     then sort_totals (sequential_totals (nat (nthreads cfg)) (sub_count g))
                     else sort_totals (sub_count g ! 0))
              in Returned sorted_totals
                   (if \<not> silent cfg
                    then out @ map (\<lambda>(w, c). Report_line w c) (report sorted_totals)
                    else out))))"


text \<open>
  A run of the program under an interleaving: the end of \<^verbatim>\<open>main\<close> when the
  interleaving takes all threads to the joins, the fault when it runs into one, and
  \<open>Unfinished\<close> otherwise.
\<close>

datatype outcome = Finished main_result | Crash fault | Unfinished

definition program :: "config \<Rightarrow> string \<Rightarrow> source_file list \<Rightarrow> sys_thread list \<Rightarrow> outcome" where
  "program cfg dir files sched =
     (case run_threads cfg dir files sched of
        Next s \<Rightarrow> if joined s then Finished (main_finish cfg (globals_of s)) else Unfinished
      | Blocked \<Rightarrow> Unfinished
      | Crashed e \<Rightarrow> Crash e)"

text \<open>The whole of \<^verbatim>\<open>main\<close> on the arguments after the program name.\<close>

definition main :: "string list \<Rightarrow> source_file list \<Rightarrow> sys_thread list \<Rightarrow> exit_code + outcome" where
  "main args files sched =
     (case main_options args of
        Inl e \<Rightarrow> Inl e
      | Inr (cfg, dir) \<Rightarrow> Inr (program cfg dir files sched))"

section \<open>Notions used in the proofs\<close>

text \<open>
  The content of a table is its lookup function. \<open>add_counts dst src\<close> is the content
  of \<open>dst\<close> after \<open>src\<close> has been folded into it, and \<open>range_sum sc lo hi\<close> the sum
  of the tables \<open>lo\<close>, ..., \<open>hi - 1\<close>.
\<close>

definition add_counts :: "(string \<rightharpoonup> int) \<Rightarrow> (string \<rightharpoonup> int) \<Rightarrow> (string \<rightharpoonup> int)" where
  "add_counts dst src =
     (\<lambda>w. case src w of
             None \<Rightarrow> dst w
           | Some c \<Rightarrow> Some ((case dst w of None \<Rightarrow> 0 | Some v \<Rightarrow> v) + c))"

definition range_sum :: "WordCount list \<Rightarrow> nat \<Rightarrow> nat \<Rightarrow> (string \<rightharpoonup> int)" where
  "range_sum sc lo hi = fold (\<lambda>n m. add_counts m (RBT.lookup (sc ! n))) [lo..<hi] Map.empty"

text \<open>The order of \<^verbatim>\<open>SortOrder\<close> on its entries, and the entry made from a table entry.\<close>

definition key_order ::
  "(int \<times> string) \<times> (string \<times> int) \<Rightarrow> (int \<times> string) \<times> (string \<times> int) \<Rightarrow> bool" where
  "key_order a b = DefineSortOrder (fst a) (fst b)"

definition entry_of :: "string \<times> int \<Rightarrow> (int \<times> string) \<times> (string \<times> int)" where
  "entry_of e = ((snd e, fst e), (fst e, snd e))"

text \<open>
  The invariant of the queue: the free slots, the handles in the queue and the handles
  that workers hold are at most \<^verbatim>\<open>FDESCS\<close> together, and \<^verbatim>\<open>opencount\<close> counts the
  handles in the queue, but for the end markers written and not yet released.
\<close>

definition is_have :: "worker_pc \<Rightarrow> bool" where
  "is_have w = (case w of W_have fd \<Rightarrow> True | _ \<Rightarrow> False)"

definition in_flight :: "queue \<Rightarrow> nat" where
  "in_flight q = length (filter is_have (workers q))"

definition pending :: "queue \<Rightarrow> nat" where
  "pending q = (case producer q of P_end n \<Rightarrow> n | _ \<Rightarrow> 0)"

definition queue_inv :: "nat \<Rightarrow> queue \<Rightarrow> bool" where
  "queue_inv N q =
     (fcount q + free_ptr q + in_flight q \<le> FDESCS + next_ptr q
      \<and> opencount q + next_ptr q + pending q = free_ptr q
      \<and> pending q \<le> N)"


fun report_lines :: "printed list \<Rightarrow> (string \<times> int) list" where
  "report_lines [] = []"
| "report_lines (Report_line w c # ps) = (w, c) # report_lines ps"
| "report_lines (p # ps) = report_lines ps"


text \<open>
  What the scan of a file by worker \<open>n\<close> leaves as it is: the two counters that
  \<^verbatim>\<open>main\<close> compares, the report lines printed and the tables of the other workers.
\<close>

definition counts :: "nat \<Rightarrow> globals \<Rightarrow> int \<times> int \<times> (string \<times> int) list \<times> WordCount list" where
  "counts n g =
     (file_count g, expected_file_count g, report_lines (stdout g),
      (sub_count g)[n := RBT.empty])"


text \<open>
  The invariant of the merge. \<open>covers s n hi\<close>: the table of worker \<open>n\<close> holds the sum
  of the tables that the workers \<open>n\<close>, ..., \<open>hi - 1\<close> had when they left the queue, and
  all of these but \<open>n\<close> have returned. A worker in the merge loop has \<open>partner\<close> and
  \<open>bit\<close> at the same power of two, which divides its number, and covers the workers up
  to \<open>n + partner\<close>; a worker that has returned covers the workers up to the partner
  at which it left the loop. \<^verbatim>\<open>main\<close> has started fewer than \<^verbatim>\<open>MAXTHREADS\<close> workers
  when it starts the next one, and a semaphore in \<^verbatim>\<open>ready_for_merge\<close> has a positive
  count only when its worker has returned.
\<close>

definition covers :: "system \<Rightarrow> nat \<Rightarrow> nat \<Rightarrow> bool" where
  "covers s n hi =
     (RBT.lookup (sub_count (globals_of s) ! n) = range_sum (scan_tables s) n hi
      \<and> (\<forall>m. n < m \<and> m < hi \<longrightarrow> merge_at s ! m = Worker_returned))"

definition worker_inv :: "config \<Rightarrow> system \<Rightarrow> nat \<Rightarrow> bool" where
  "worker_inv cfg s n =
     (case merge_at s ! n of
        In_queue \<Rightarrow> True
      | In_merge partner b \<Rightarrow>
          (\<exists>k. partner = 2 ^ k \<and> b = 2 ^ k \<and> 2 ^ k dvd n
               \<and> (\<not> parallel_merge cfg \<longrightarrow> k = 0)
               \<and> covers s n (min (n + 2 ^ k) (nat (nthreads cfg))))
      | Worker_returned \<Rightarrow>
          (\<exists>k. 2 ^ k dvd n
               \<and> (if parallel_merge cfg
                   then nat (nthreads cfg) \<le> n + 2 ^ k \<or> n AND 2 ^ k \<noteq> 0
                   else k = 0)
               \<and> covers s n (min (n + 2 ^ k) (nat (nthreads cfg)))))"

definition main_bound :: "config \<Rightarrow> system \<Rightarrow> bool" where
  "main_bound cfg s =
     (case main_at s of
        Main_alloc n \<Rightarrow> n \<le> MAXTHREADS
      | Main_start n \<Rightarrow> n < MAXTHREADS
      | Main_join \<Rightarrow> nat (nthreads cfg) \<le> MAXTHREADS)"

definition merge_inv :: "config \<Rightarrow> system \<Rightarrow> bool" where
  "merge_inv cfg s =
     (length (sub_count (globals_of s)) = MAXTHREADS
      \<and> length (scan_tables s) = MAXTHREADS
      \<and> length (ready_for_merge s) = MAXTHREADS
      \<and> length (merge_at s) = nat (nthreads cfg)
      \<and> main_bound cfg s
      \<and> (\<forall>n < nat (nthreads cfg). worker_inv cfg s n)
      \<and> (\<forall>m c. m < MAXTHREADS \<and> ready_for_merge s ! m = Some c \<and> 0 < c
              \<longrightarrow> m < nat (nthreads cfg) \<and> merge_at s ! m = Worker_returned))"

text \<open>
  The invariant of the failed opens: the units of \<^verbatim>\<open>fcount\<close> that failed opens have
  taken are not given back, so they count with the free slots, the handles in the queue
  and the handles that workers hold; \<open>seen\<close> are the results of \<^verbatim>\<open>open\<close> so far.
\<close>

definition failures :: "int list \<Rightarrow> nat" where
  "failures fds = length (filter (\<lambda>fd. fd = -1) fds)"

definition leak_inv :: "int list \<Rightarrow> nat \<Rightarrow> queue \<Rightarrow> bool" where
  "leak_inv opens N q =
     (queue_inv N q
      \<and> (case producer q of
            P_open rest \<Rightarrow>
              (\<exists>seen. opens = seen @ rest
                 \<and> fcount q + free_ptr q + in_flight q + failures seen \<le> FDESCS + next_ptr q)
          | P_end n \<Rightarrow>
              fcount q + free_ptr q + in_flight q + failures opens \<le> FDESCS + next_ptr q
          | P_done \<Rightarrow>
              fcount q + free_ptr q + in_flight q + failures opens \<le> FDESCS + next_ptr q
              \<and> N + failures opens \<le> FDESCS))"

definition unopenable :: "source_file \<Rightarrow> bool" where
  "unopenable f = (case f of Unopenable path \<Rightarrow> True | Opened path content \<Rightarrow> False)"

section \<open>Inputs used in the evaluations below\<close>

text \<open>
  Two files of 1026 and 1025 bytes: blanks, then one word that runs to the end of the
  file with no delimiter after it. With \<^verbatim>\<open>-b1\<close> (\<^verbatim>\<open>BLOCKSIZE = 1024\<close>) the first read
  ends inside the word.
\<close>

definition hello_file :: string where
  "hello_file = replicate 1021 CHR '' '' @ ''hello''"

definition end_file :: string where
  "end_file = replicate 1022 CHR '' '' @ ''end''"

text \<open>
  A file of 2024 bytes: blanks, one word of 1023 bytes, a newline. With
  \<^verbatim>\<open>BLOCKSIZE = 1024\<close> the first read ends after 24 bytes of the word.
\<close>

definition long_word_file :: string where
  "long_word_file = replicate 1000 CHR '' '' @ replicate 1023 CHR ''a'' @ [CHR 0x0A]"

text \<open>The table of the file \<^verbatim>\<open>"foo foo bar\n"\<close>.\<close>

definition foo_bar_table :: WordCount where
  "foo_bar_table = wc_add ''bar'' 1 (wc_add ''foo'' 1 (wc_add ''foo'' 1 RBT.empty))"

text \<open>
  Silent mode with the other options at their defaults, and two workers without and with
  the parallel merge.
\<close>

definition silent_config :: config where
  "silent_config = default_config\<lparr>silent := True\<rparr>"

definition two_workers_config :: config where
  "two_workers_config = default_config\<lparr>nthreads := 2\<rparr>"

definition parallel_config :: config where
  "parallel_config = default_config\<lparr>nthreads := 2, parallel_merge := True\<rparr>"


text \<open>
  Interleavings of a run with two workers over a directory with one file. In the first,
  \<^verbatim>\<open>main\<close> stores \<^verbatim>\<open>ready_for_merge[0]\<close> and starts worker 0; \<^verbatim>\<open>fopener\<close> counts
  the files, opens the file, leaves its loop, writes the two end markers and releases
  \<^verbatim>\<open>opencount\<close>; worker 0 claims the file, scans it, claims an end marker, leaves the
  queue and takes its next step, while \<^verbatim>\<open>main\<close> has not yet come to
  \<^verbatim>\<open>ready_for_merge[1] = new ...\<close>. The second goes on from there: \<^verbatim>\<open>main\<close> starts
  worker 1 and goes to the joins, and worker 1 claims the other end marker, leaves the
  queue and returns. In the third \<^verbatim>\<open>main\<close> starts both workers before any other thread
  takes a step; after \<^verbatim>\<open>fopener\<close>, worker 0 scans the file and leaves the queue,
  worker 1 leaves the queue and returns, and worker 0 takes the two steps of its merge
  loop.
\<close>

definition early_merge_schedule :: "sys_thread list" where
  "early_merge_schedule =
     replicate 2 Main_thread @ replicate 6 Fopener_thread @ replicate 5 (Wcounter_thread 0)"

definition late_start_schedule :: "sys_thread list" where
  "late_start_schedule =
     early_merge_schedule @ replicate 3 Main_thread @ replicate 3 (Wcounter_thread 1)"

definition started_first_schedule :: "sys_thread list" where
  "started_first_schedule =
     replicate 5 Main_thread @ replicate 6 Fopener_thread @ replicate 4 (Wcounter_thread 0)
     @ replicate 3 (Wcounter_thread 1) @ replicate 2 (Wcounter_thread 0)"

text \<open>
  An interleaving of a run with \<^verbatim>\<open>-n0\<close> over a directory with one file: \<^verbatim>\<open>main\<close>
  leaves its loop at once; \<^verbatim>\<open>fopener\<close> counts the files, opens the file, leaves its
  loop and releases \<^verbatim>\<open>opencount\<close> by 0.
\<close>

definition no_worker_schedule :: "sys_thread list" where
  "no_worker_schedule = Main_thread # replicate 4 Fopener_thread"

section \<open>Facts about the scanner\<close>

declare inner_loop.simps [simp del]
declare read_loop.simps [simp del]

lemma token_chars_space: "\<not> token_chars CHR '' ''"
  by (simp add: token_chars_def token_str_def)

lemma NUL_not_token: "\<not> token_chars NUL"
  by (simp add: token_chars_def token_str_def NUL_def)

lemma cstr_token_word:
  assumes "\<forall>x\<in>set w. token_chars x"
  shows "cstr (w @ NUL # rest) 0 = w"
proof -
  have "\<forall>x\<in>set w. x \<noteq> NUL" using assms NUL_not_token by blast
  then show ?thesis by (simp add: cstr_def takeWhile_append2)
qed

text \<open>Bytes that are no token bytes, with no word open and no prefix pending, are skipped.\<close>

lemma inner_loop_skip:
  assumes "\<not> token_chars c" "cptr + k \<le> nbytes"
  shows "inner_loop n nbytes cptr (replicate cptr NUL @ replicate k c @ rest, None, -1, g)
       = inner_loop n nbytes (cptr + k) (replicate (cptr + k) NUL @ rest, None, -1, g)"
  using assms
proof (induction k arbitrary: cptr)
  case 0
  then show ?case by simp
next
  case (Suc k)
  have lt: "cptr < nbytes" using Suc.prems by simp
  have nth: "(replicate cptr NUL @ replicate (Suc k) c @ rest) ! cptr = c"
    by (simp add: nth_append)
  have upd: "(replicate cptr NUL @ replicate (Suc k) c @ rest)[cptr := NUL]
           = replicate (Suc cptr) NUL @ replicate k c @ rest"
    by (simp add: list_update_append replicate_append_same)
  have "inner_loop n nbytes cptr (replicate cptr NUL @ replicate (Suc k) c @ rest, None, -1, g)
      = inner_loop n nbytes (Suc cptr)
          (replicate (Suc cptr) NUL @ replicate k c @ rest, None, -1, g)"
    apply (subst inner_loop.simps)
    using lt Suc.prems(1) nth upd by (simp add: found_something_def)
  also have "\<dots> = inner_loop n nbytes (Suc cptr + k)
                    (replicate (Suc cptr + k) NUL @ rest, None, -1, g)"
    using Suc.IH [of "Suc cptr"] Suc.prems by simp
  finally show ?case by simp
qed

text \<open>Over token bytes the loop only sets \<open>sptr\<close>, if it is not set yet.\<close>

lemma inner_loop_tokens:
  assumes "\<forall>i. cptr \<le> i \<and> i < nbytes \<longrightarrow> token_chars (buffer ! i)"
  shows "inner_loop n nbytes cptr (buffer, p, sptr, g)
       = (buffer, p, (if sptr = -1 \<and> cptr < nbytes then int cptr else sptr), g)"
  using assms
proof (induction "nbytes - cptr" arbitrary: cptr sptr)
  case 0
  then show ?case by (subst inner_loop.simps) simp
next
  case (Suc d)
  have lt: "cptr < nbytes" using Suc.hyps(2) by simp
  have tok: "token_chars (buffer ! cptr)" using Suc.prems lt by simp
  have d: "d = nbytes - Suc cptr" using Suc.hyps(2) by simp
  have rest: "\<forall>i. Suc cptr \<le> i \<and> i < nbytes \<longrightarrow> token_chars (buffer ! i)"
    using Suc.prems by simp
  show ?case
    apply (subst inner_loop.simps)
    using lt tok Suc.hyps(1) [OF d rest] by simp
qed

lemma inner_loop_pad_word:
  assumes c: "\<not> token_chars c" and w: "\<forall>x\<in>set w. token_chars x" and ne: "w \<noteq> []"
  shows "inner_loop n (k + length w) 0 (replicate k c @ w @ [NUL], None, -1, g)
       = (replicate k NUL @ w @ [NUL], None, int k, g)"
proof -
  have "inner_loop n (k + length w) 0 (replicate k c @ w @ [NUL], None, -1, g)
      = inner_loop n (k + length w) k (replicate k NUL @ w @ [NUL], None, -1, g)"
    using inner_loop_skip [OF c, of 0 k "k + length w" n "w @ [NUL]" g] by simp
  also have "\<dots> = (replicate k NUL @ w @ [NUL], None, int k, g)"
  proof -
    have "\<forall>i. k \<le> i \<and> i < k + length w \<longrightarrow> token_chars ((replicate k NUL @ w @ [NUL]) ! i)"
      using w by (auto simp: nth_append)
    then show ?thesis using ne by (simp add: inner_loop_tokens)
  qed
  finally show ?thesis .
qed

text \<open>A read that ends inside a word stores the fragment as the pending prefix.\<close>

lemma read_pad_word:
  assumes c: "\<not> token_chars c" and w: "\<forall>x\<in>set w. token_chars x" and ne: "w \<noteq> []"
    and B: "BLOCKSIZE = k + length w" and short: "length w < 1024"
  shows "read_loop BLOCKSIZE n (replicate k c @ w @ rest) (buffer, None, -1, g)
       = read_loop BLOCKSIZE n rest
           (replicate k NUL @ w @ [NUL], Some (w @ [NUL]), -1, scanned BLOCKSIZE g)"
proof -
  have pos: "0 < k + length w" using ne by simp
  show ?thesis
    apply (subst read_loop.simps)
    using pos short
    by (simp add: B Let_def inner_loop_pad_word [OF c w ne] save_prefix_def)
qed

text \<open>
  A last read made of token bytes only: the new fragment takes the place of whatever
  prefix \<open>p\<close> is pending, and \<open>p\<close> is gone.
\<close>

lemma read_last_tokens:
  assumes w: "\<forall>x\<in>set w. token_chars x" and ne: "w \<noteq> []"
    and B: "length w \<le> BLOCKSIZE" and short: "length w < 1024"
  shows "read_loop BLOCKSIZE n w (buffer, p, -1, g)
       = Inr (w @ [NUL], Some (w @ [NUL]), -1, scanned (length w) g)"
proof -
  have tok: "\<forall>i. 0 \<le> i \<and> i < length w \<longrightarrow> token_chars ((w @ [NUL]) ! i)"
    using w by (auto simp: nth_append)
  have m: "min BLOCKSIZE (length w) = length w" using B by simp
  have "read_loop BLOCKSIZE n w (buffer, p, -1, g)
      = read_loop BLOCKSIZE n [] (w @ [NUL], Some (w @ [NUL]), -1, scanned (length w) g)"
    apply (subst read_loop.simps)
    using ne short
    by (simp add: m Let_def inner_loop_tokens [OF tok] save_prefix_def)
  also have "\<dots> = Inr (w @ [NUL], Some (w @ [NUL]), -1, scanned (length w) g)"
    by (subst read_loop.simps) simp
  finally show ?thesis .
qed

text \<open>
  A file of padding and one word \<open>u @ v\<close> at its end, read so that the first block ends
  after \<open>u\<close>: the word recorded is \<open>v\<close>.
\<close>

lemma wcounter_file_split_at_end:
  assumes c: "\<not> token_chars c" and u: "\<forall>x\<in>set u. token_chars x" and une: "u \<noteq> []"
    and v: "\<forall>x\<in>set v. token_chars x" and vne: "v \<noteq> []"
    and B: "BLOCKSIZE = k + length u" and ushort: "length u < 1024"
    and vB: "length v \<le> BLOCKSIZE" and vshort: "length v < 1024"
  shows "wcounter_file BLOCKSIZE n (replicate k c @ u @ v) buffer g
       = Inr (found n v (scanned (length v) (scanned BLOCKSIZE g)))"
  unfolding wcounter_file_def
  by (simp add: read_pad_word [OF c u une B ushort] read_last_tokens [OF v vne vB vshort]
      found_something_def cstr_token_word [OF v])

text \<open>The same file in one read: the word recorded is the whole word.\<close>

lemma wcounter_file_one_block:
  assumes c: "\<not> token_chars c" and w: "\<forall>x\<in>set w. token_chars x" and ne: "w \<noteq> []"
    and B: "k + length w \<le> BLOCKSIZE" and short: "length w < 1024"
  shows "wcounter_file BLOCKSIZE n (replicate k c @ w) buffer g
       = Inr (found n w (scanned (k + length w) g))"
proof -
  have pos: "0 < k + length w" using ne by simp
  have m: "min BLOCKSIZE (k + length w) = k + length w" using B by simp
  have "read_loop BLOCKSIZE n (replicate k c @ w) (buffer, None, -1, g)
      = read_loop BLOCKSIZE n []
          (replicate k NUL @ w @ [NUL], Some (w @ [NUL]), -1, scanned (k + length w) g)"
    apply (subst read_loop.simps)
    using pos short
    by (simp add: m Let_def inner_loop_pad_word [OF c w ne] save_prefix_def)
  also have "\<dots> = Inr (replicate k NUL @ w @ [NUL], Some (w @ [NUL]), -1,
                        scanned (k + length w) g)"
    by (subst read_loop.simps) simp
  finally show ?thesis
    unfolding wcounter_file_def
    by (simp add: found_something_def cstr_token_word [OF w])
qed

text \<open>What the worker's buffer holds before the first read does not matter.\<close>

lemma wcounter_file_buffer:
  "wcounter_file BLOCKSIZE n content buffer g = wcounter_file BLOCKSIZE n content [] g"
  unfolding wcounter_file_def
  by (simp add: read_loop.simps [of BLOCKSIZE n content buffer]
      read_loop.simps [of BLOCKSIZE n content "[]"] Let_def found_something_def)

lemma found_split_records:
  "length prefix + length suffix < 1023 \<Longrightarrow>
   found_split tn prefix suffix g = found tn (prefix @ suffix) g"
  by (simp add: found_split_def)

lemma tok_hel: "\<forall>x\<in>set ''hel''. token_chars x"
  by (simp add: token_chars_def token_str_def)

lemma tok_lo: "\<forall>x\<in>set ''lo''. token_chars x"
  by (simp add: token_chars_def token_str_def)

lemma tok_hello: "\<forall>x\<in>set ''hello''. token_chars x"
  by (simp add: token_chars_def token_str_def)

lemma tok_en: "\<forall>x\<in>set ''en''. token_chars x"
  by (simp add: token_chars_def token_str_def)

lemma tok_d: "\<forall>x\<in>set ''d''. token_chars x"
  by (simp add: token_chars_def token_str_def)

lemma hello_1024:
  "wcounter_file 1024 0 hello_file [] g = Inr (found 0 ''lo'' (scanned 2 (scanned 1024 g)))"
  using wcounter_file_split_at_end [OF token_chars_space tok_hel _ tok_lo, of 1024 1021 0 "[]" g]
  by (simp add: hello_file_def numeral_2_eq_2)

lemma hello_2048:
  "wcounter_file 2048 0 hello_file [] g = Inr (found 0 ''hello'' (scanned 1026 g))"
  using wcounter_file_one_block [OF token_chars_space tok_hello, of 1021 2048 0 "[]" g]
  by (simp add: hello_file_def)

lemma lookup_found_initial:
  "RBT.lookup (sub_count (found 0 w (scanned a (scanned b initial_globals))) ! 0) = [w \<mapsto> 1]"
  "RBT.lookup (sub_count (found 0 w (scanned a initial_globals)) ! 0) = [w \<mapsto> 1]"
  by (simp_all add: found_def scanned_def initial_globals_def MAXTHREADS_def wc_add_def wc_get_def)

lemma inner_loop_tokens_upto:
  assumes "\<forall>i. cptr \<le> i \<and> i < k \<longrightarrow> token_chars (buffer ! i)" "k \<le> nbytes"
  shows "inner_loop n nbytes cptr (buffer, p, sptr, g)
       = inner_loop n nbytes (max cptr k)
           (buffer, p, (if sptr = -1 \<and> cptr < k then int cptr else sptr), g)"
  using assms
proof (induction "k - cptr" arbitrary: cptr sptr)
  case 0
  then show ?case by (simp add: max_def)
next
  case (Suc d)
  have lt: "cptr < k" using Suc.hyps(2) by simp
  have tok: "token_chars (buffer ! cptr)" using Suc.prems lt by simp
  have d: "d = k - Suc cptr" using Suc.hyps(2) by simp
  have rest: "\<forall>i. Suc cptr \<le> i \<and> i < k \<longrightarrow> token_chars (buffer ! i)"
    using Suc.prems by simp
  have "inner_loop n nbytes cptr (buffer, p, sptr, g)
      = inner_loop n nbytes (Suc cptr) (buffer, p, (if sptr = -1 then int cptr else sptr), g)"
    using lt Suc.prems(2) tok by (subst inner_loop.simps) simp
  also have "\<dots> = inner_loop n nbytes (max (Suc cptr) k)
      (buffer, p, (if (if sptr = -1 then int cptr else sptr) = -1 \<and> Suc cptr < k
                   then int (Suc cptr) else (if sptr = -1 then int cptr else sptr)), g)"
    by (rule Suc.hyps(1) [OF d rest Suc.prems(2)])
  finally show ?case using lt by (simp add: max_def)
qed

lemma inner_loop_word_delim:
  assumes v: "\<forall>x\<in>set v. token_chars x" and ne: "v \<noteq> []" and c: "\<not> token_chars c"
  shows "inner_loop n (length v + 1) 0 (v @ [c, NUL], Some p, -1, g)
       = (v @ [NUL, NUL], None, -1, found_split n (cstr p 0) v g)"
proof -
  let ?buf = "v @ [c, NUL]"
  have tok: "\<forall>i. 0 \<le> i \<and> i < length v \<longrightarrow> token_chars (?buf ! i)"
    using v by (auto simp: nth_append)
  have "inner_loop n (length v + 1) 0 (?buf, Some p, -1, g)
      = inner_loop n (length v + 1) (length v) (?buf, Some p, 0, g)"
    using inner_loop_tokens_upto [OF tok, of "length v + 1" n "Some p" "-1" g] ne
    by (simp add: max_def)
  also have "\<dots> = inner_loop n (length v + 1) (length v + 1)
      (v @ [NUL, NUL], None, -1, found_split n (cstr p 0) v g)"
    using c cstr_token_word [OF v, of "[NUL]"]
    by (subst inner_loop.simps) (simp add: nth_append found_something_def)
  also have "\<dots> = (v @ [NUL, NUL], None, -1, found_split n (cstr p 0) v g)"
    by (subst inner_loop.simps) simp
  finally show ?thesis .
qed

lemma read_word_delim_last:
  assumes v: "\<forall>x\<in>set v. token_chars x" and ne: "v \<noteq> []" and c: "\<not> token_chars c"
    and B: "length v + 1 \<le> BLOCKSIZE"
  shows "read_loop BLOCKSIZE n (v @ [c]) (buffer, Some p, -1, g)
       = Inr (v @ [NUL, NUL], None, -1,
              found_split n (cstr p 0) v (scanned (length v + 1) g))"
proof -
  have m: "min BLOCKSIZE (Suc (length v)) = Suc (length v)" using B by simp
  have "read_loop BLOCKSIZE n (v @ [c]) (buffer, Some p, -1, g)
      = read_loop BLOCKSIZE n []
          (v @ [NUL, NUL], None, -1, found_split n (cstr p 0) v (scanned (length v + 1) g))"
    apply (subst read_loop.simps)
    using inner_loop_word_delim [OF v ne c, of n p "scanned (length v + 1) g"]
    by (simp add: m Let_def save_prefix_def)
  also have "\<dots> = Inr (v @ [NUL, NUL], None, -1,
      found_split n (cstr p 0) v (scanned (length v + 1) g))"
    by (subst read_loop.simps) simp
  finally show ?thesis .
qed

text \<open>
  A word \<open>u @ v\<close> split after \<open>u\<close> by the end of the first read and followed by a
  delimiter in the second read goes through the glue function.
\<close>

lemma wcounter_file_split_then_delim:
  assumes c0: "\<not> token_chars c0" and u: "\<forall>x\<in>set u. token_chars x" and une: "u \<noteq> []"
    and v: "\<forall>x\<in>set v. token_chars x" and vne: "v \<noteq> []" and c: "\<not> token_chars c"
    and B: "BLOCKSIZE = k + length u" and ushort: "length u < 1024"
    and vB: "length v + 1 \<le> BLOCKSIZE"
  shows "wcounter_file BLOCKSIZE n (replicate k c0 @ u @ v @ [c]) buffer g
       = Inr (found_split n u v (scanned (length v + 1) (scanned BLOCKSIZE g)))"
  unfolding wcounter_file_def
  using read_pad_word [OF c0 u une B ushort, of n "v @ [c]" buffer g]
    read_word_delim_last [OF v vne c vB, of n "replicate k NUL @ u @ [NUL]" "u @ [NUL]"
      "scanned BLOCKSIZE g"]
    cstr_token_word [OF u, of "[]"]
  by (simp add: found_something_def)

lemma tok_replicate_a: "\<forall>x\<in>set (replicate m CHR ''a''). token_chars x"
  by (simp add: token_chars_def token_str_def)

lemma newline_not_token: "\<not> token_chars (CHR 0x0A)"
  by (simp add: token_chars_def token_str_def)

lemma long_word_1024:
  "wcounter_file 1024 0 long_word_file [] g
   = Inr (found_split 0 (replicate 24 CHR ''a'') (replicate 999 CHR ''a'')
            (scanned 1000 (scanned 1024 g)))"
proof -
  have split: "replicate 1023 CHR ''a'' = replicate 24 CHR ''a'' @ replicate 999 CHR ''a''"
    using replicate_add [of 24 999 "CHR ''a''"] by simp
  have "wcounter_file 1024 0
          (replicate 1000 CHR '' '' @ replicate 24 CHR ''a'' @ replicate 999 CHR ''a'' @ [CHR 0x0A])
          [] g
      = Inr (found_split 0 (replicate 24 CHR ''a'') (replicate 999 CHR ''a'')
            (scanned (length (replicate 999 CHR ''a'') + 1) (scanned 1024 g)))"
    by (rule wcounter_file_split_then_delim
        [OF token_chars_space tok_replicate_a _ tok_replicate_a _ newline_not_token])
      simp_all
  then show ?thesis by (simp add: long_word_file_def split)
qed

text \<open>
  So a word of fewer than 1023 bytes that is split once, with its end inside the second
  read, is recorded once and whole.
\<close>

lemma wcounter_file_split_glued:
  assumes c0: "\<not> token_chars c0" and u: "\<forall>x\<in>set u. token_chars x" and une: "u \<noteq> []"
    and v: "\<forall>x\<in>set v. token_chars x" and vne: "v \<noteq> []" and c: "\<not> token_chars c"
    and B: "BLOCKSIZE = k + length u" and vB: "length v + 1 \<le> BLOCKSIZE"
    and short: "length u + length v < 1023"
  shows "wcounter_file BLOCKSIZE n (replicate k c0 @ u @ v @ [c]) buffer g
       = Inr (found n (u @ v) (scanned (length v + 1) (scanned BLOCKSIZE g)))"
proof -
  have ushort: "length u < 1024" using short by simp
  show ?thesis
    using wcounter_file_split_then_delim [OF c0 u une v vne c B ushort vB, of n buffer g] short
    by (simp add: found_split_records)
qed

section \<open>Split words (C1, C5, C8)\<close>

text \<open>
  C1. The claim: a word split across consecutive read blocks is recorded as one
  occurrence of the whole word, so the counts are the same for every block size.

  The code does not do that when a read that continues a pending word consists of
  token bytes up to its end (the last read of a file that ends in the word is the
  common case): the block-end copy overwrites the pending prefix. For the 1026-byte file
  \<open>hello_file\<close>, worker 0 starting from empty tables records \<open>lo\<close> once with
  \<^verbatim>\<open>BLOCKSIZE = 1024\<close> (reads of 1024 and 2 bytes) and \<open>hello\<close> once with
  \<^verbatim>\<open>BLOCKSIZE = 2048\<close> (one read); each table holds nothing else.
\<close>

theorem split_word_counts_depend_on_block_size:
  "wcounter_file 1024 0 hello_file [] initial_globals
     = Inr (found 0 ''lo'' (scanned 2 (scanned 1024 initial_globals)))
   \<and> wcounter_file 2048 0 hello_file [] initial_globals
     = Inr (found 0 ''hello'' (scanned 1026 initial_globals))
   \<and> RBT.lookup (sub_count (found 0 ''lo'' (scanned 2 (scanned 1024 initial_globals))) ! 0)
     = [''lo'' \<mapsto> 1]
   \<and> RBT.lookup (sub_count (found 0 ''hello'' (scanned 1026 initial_globals)) ! 0)
     = [''hello'' \<mapsto> 1]"
  by (simp add: hello_1024 hello_2048 lookup_found_initial)

text \<open>
  C5. The claim: gluing prefix and continuation rejects the word exactly when the
  combined length exceeds 1023 bytes, and every word of at most 1023 bytes is recorded.

  The guard of \<^verbatim>\<open>found(tn, prefix, suffix)\<close> is \<^verbatim>\<open>plen + slen >= 1023\<close>: a word of
  exactly 1023 bytes, split as 24 + 999 bytes, is reported as unreasonably long and not
  recorded, although it fits the 1024-byte array with its terminating NUL. The file
  \<open>long_word_file\<close> read with \<^verbatim>\<open>BLOCKSIZE = 1024\<close> makes that call: the run goes on,
  prints the message and leaves the tables as they were.
\<close>

theorem found_split_rejects_1023_bytes:
  "found_split tn (replicate 24 CHR ''a'') (replicate 999 CHR ''a'') g
     = g\<lparr>stdout := stdout g @
           [Word_unreasonably_long (replicate 24 CHR ''a'') (replicate 999 CHR ''a'') 1023]\<rparr>
   \<and> wcounter_file 1024 0 long_word_file [] initial_globals
     = Inr ((scanned 1000 (scanned 1024 initial_globals))
              \<lparr>stdout := [Word_unreasonably_long (replicate 24 CHR ''a'')
                                                   (replicate 999 CHR ''a'') 1023]\<rparr>)"
  by (simp add: long_word_1024) (simp add: found_split_def scanned_def initial_globals_def)

text \<open>
  C8. The claim: when a file ends inside a word, the remainder is flushed as one final
  counted word, so the file's last word is never lost.

  For the 1025-byte file \<open>end_file\<close> read with \<^verbatim>\<open>BLOCKSIZE = 1024\<close> the last word is
  \<open>end\<close>; the first read ends after \<open>en\<close>, the second read is \<open>d\<close>, and what is
  flushed at the end of the stream is \<open>d\<close>: the table of worker 0 holds \<open>d\<close> once
  and no entry for \<open>end\<close>.
\<close>

theorem last_word_lost_at_end_of_file:
  "\<exists>g. wcounter_file 1024 0 end_file [] initial_globals = Inr g
      \<and> RBT.lookup (sub_count g ! 0) = [''d'' \<mapsto> 1]
      \<and> RBT.lookup (sub_count g ! 0) ''end'' = None"
proof -
  have "wcounter_file 1024 0 end_file [] initial_globals
      = Inr (found 0 ''d'' (scanned 1 (scanned 1024 initial_globals)))"
    using wcounter_file_split_at_end
      [OF token_chars_space tok_en _ tok_d, of 1024 1022 0 "[]" initial_globals]
    by (simp add: end_file_def)
  then show ?thesis by (simp add: lookup_found_initial)
qed

section \<open>The content of merged tables\<close>

lemma add_counts_empty_right: "add_counts m Map.empty = m"
  by (simp add: add_counts_def)

lemma add_counts_empty_left: "add_counts Map.empty m = m"
  by (rule ext) (simp add: add_counts_def split: option.splits)

lemma add_counts_assoc: "add_counts (add_counts a b) c = add_counts a (add_counts b c)"
  by (rule ext) (simp add: add_counts_def split: option.splits)

lemma lookup_wc_add:
  "RBT.lookup (wc_add w c m) = (RBT.lookup m)(w \<mapsto> wc_get m w + c)"
  by (simp add: wc_add_def)

lemma lookup_fold_wc_add:
  "distinct (map fst es) \<Longrightarrow>
   RBT.lookup (fold (\<lambda>(w, c). wc_add w c) es dst) = add_counts (RBT.lookup dst) (map_of es)"
proof (induction es arbitrary: dst)
  case Nil
  then show ?case by (simp add: add_counts_empty_right)
next
  case (Cons e es)
  obtain w c where e: "e = (w, c)" by (cases e)
  have fresh: "map_of es w = None"
    using Cons.prems e by (simp add: map_of_eq_None_iff)
  have "RBT.lookup (fold (\<lambda>(w, c). wc_add w c) (e # es) dst)
      = add_counts (RBT.lookup (wc_add w c dst)) (map_of es)"
    using Cons.IH [of "wc_add w c dst"] Cons.prems e by simp
  also have "\<dots> = add_counts (RBT.lookup dst) (map_of (e # es))"
    using fresh
    by (intro ext) (simp add: e add_counts_def lookup_wc_add wc_get_def split: option.splits)
  finally show ?case .
qed

lemma lookup_merge_into:
  "RBT.lookup (merge_into src dst) = add_counts (RBT.lookup dst) (RBT.lookup src)"
proof -
  have "RBT.lookup (merge_into src dst)
      = RBT.lookup (fold (\<lambda>(w, c). wc_add w c) (RBT.entries src) dst)"
    by (simp add: merge_into_def RBT.fold_fold)
  also have "\<dots> = add_counts (RBT.lookup dst) (map_of (RBT.entries src))"
    by (rule lookup_fold_wc_add) (rule RBT.distinct_entries)
  finally show ?thesis by simp
qed

lemma fold_add_counts:
  "fold (\<lambda>n m. add_counts m (f n)) ns m0
   = add_counts m0 (fold (\<lambda>n m. add_counts m (f n)) ns Map.empty)"
proof (induction ns arbitrary: m0)
  case Nil
  then show ?case by (simp add: add_counts_empty_right)
next
  case (Cons n ns)
  show ?case
    using Cons.IH [of "add_counts m0 (f n)"] Cons.IH [of "add_counts Map.empty (f n)"]
    by (simp add: add_counts_assoc add_counts_empty_left)
qed

lemma range_sum_split:
  assumes "lo \<le> mid" "mid \<le> hi"
  shows "add_counts (range_sum sc lo mid) (range_sum sc mid hi) = range_sum sc lo hi"
proof -
  have "[lo..<hi] = [lo..<mid] @ [mid..<hi]"
    using assms upt_add_eq_append [of lo mid "hi - mid"] by simp
  then show ?thesis
    unfolding range_sum_def
    using fold_add_counts [of "\<lambda>n. RBT.lookup (sc ! n)" "[mid..<hi]"
        "fold (\<lambda>n m. add_counts m (RBT.lookup (sc ! n))) [lo..<mid] Map.empty"]
    by simp
qed

lemma range_sum_single: "range_sum sc n (Suc n) = RBT.lookup (sc ! n)"
  by (simp add: range_sum_def add_counts_empty_left)

lemma lookup_fold_merge:
  "RBT.lookup (fold (\<lambda>n totals. merge_into (sc ! n) totals) ns t0)
   = fold (\<lambda>n m. add_counts m (RBT.lookup (sc ! n))) ns (RBT.lookup t0)"
  by (induction ns arbitrary: t0) (simp_all add: lookup_merge_into)

lemma lookup_sequential_totals:
  "RBT.lookup (sequential_totals N sc) = range_sum sc 0 N"
  by (simp add: sequential_totals_def range_sum_def lookup_fold_merge)

lemma and_pow_zero:
  fixes q :: nat
  assumes "i < j"
  shows "(2 ^ j * q) AND 2 ^ i = 0"
proof -
  have "(2::nat) ^ j = 2 ^ i * 2 ^ (j - i)"
    using assms by (simp flip: power_add)
  then have "2 ^ j * q div 2 ^ i = 2 ^ (j - i) * q"
    by simp
  moreover have "even ((2::nat) ^ (j - i) * q)" using assms by simp
  ultimately show ?thesis by (simp add: and_exp_eq_0_iff_not_bit bit_iff_odd)
qed

section \<open>The report order (C4)\<close>

lemma DefineSortOrder_irrefl: "\<not> DefineSortOrder a a"
  by (simp add: DefineSortOrder_def)

lemma DefineSortOrder_trans:
  "DefineSortOrder a b \<Longrightarrow> DefineSortOrder b c \<Longrightarrow> DefineSortOrder a c"
  by (auto simp: DefineSortOrder_def)

lemma DefineSortOrder_total:
  "\<not> DefineSortOrder a b \<Longrightarrow> \<not> DefineSortOrder b a \<Longrightarrow> a = b"
  by (cases a; cases b) (auto simp: DefineSortOrder_def)

lemma set_so_assign:
  "fst ` set (so_assign k v xs) = insert k (fst ` set xs)
   \<and> (k \<notin> fst ` set xs \<longrightarrow> set (so_assign k v xs) = insert (k, v) (set xs))"
proof (induction xs)
  case Nil
  then show ?case by simp
next
  case (Cons x xs)
  obtain k' v' where x: "x = (k', v')" by (cases x)
  show ?case
    using Cons.IH DefineSortOrder_total [of k k'] DefineSortOrder_irrefl [of k]
    by (auto simp: x)
qed

lemma sorted_so_assign:
  "sorted_wrt key_order xs \<Longrightarrow> sorted_wrt key_order (so_assign k v xs)"
proof (induction xs)
  case Nil
  then show ?case by simp
next
  case (Cons x xs)
  obtain k' v' where x: "x = (k', v')" by (cases x)
  have tail: "sorted_wrt key_order xs" and head: "\<forall>y\<in>set xs. key_order x y"
    using Cons.prems by simp_all
  show ?case
  proof (cases "DefineSortOrder k k'")
    case True
    have "\<forall>y\<in>set xs. key_order (k, v) y"
      using head True DefineSortOrder_trans [of k k'] by (auto simp: key_order_def x)
    then show ?thesis using True Cons.prems by (simp add: x key_order_def)
  next
    case False
    show ?thesis
    proof (cases "DefineSortOrder k' k")
      case True
      have "\<forall>y\<in>set (so_assign k v xs). key_order (k', v') y"
      proof
        fix y assume "y \<in> set (so_assign k v xs)"
        then have "fst y \<in> insert k (fst ` set xs)"
          using set_so_assign [of k v xs] by (metis imageI)
        then show "key_order (k', v') y"
          using True head by (auto simp: key_order_def x)
      qed
      then show ?thesis using False True Cons.IH [OF tail] by (simp add: x)
    next
      case F2: False
      have "\<forall>y\<in>set xs. key_order (k', v) y"
        using head by (simp add: key_order_def x)
      then show ?thesis using False F2 tail by (simp add: x)
    qed
  qed
qed

lemma fold_so_assign:
  assumes "distinct es"
  shows "sorted_wrt key_order st \<Longrightarrow> set st \<inter> entry_of ` set es = {} \<Longrightarrow>
    fst ` set st \<inter> fst ` entry_of ` set es = {} \<Longrightarrow>
    sorted_wrt key_order (fold (\<lambda>(word, count). so_assign (count, word) (word, count)) es st)
    \<and> set (fold (\<lambda>(word, count). so_assign (count, word) (word, count)) es st)
      = set st \<union> entry_of ` set es"
  using assms
proof (induction es arbitrary: st)
  case Nil
  then show ?case by simp
next
  case (Cons e es)
  obtain w c where e: "e = (w, c)" by (cases e)
  let ?st = "so_assign (c, w) (w, c) st"
  have fresh: "(c, w) \<notin> fst ` set st"
    using Cons.prems(3) by (auto simp: e entry_of_def)
  have set1: "set ?st = insert ((c, w), (w, c)) (set st)"
    using set_so_assign [of "(c, w)" "(w, c)" st] fresh by blast
  have inj: "inj entry_of" by (auto simp: inj_on_def entry_of_def prod_eq_iff)
  have notin: "e \<notin> set es" using Cons.prems(4) by simp
  have keys_inj: "\<And>a b. fst (entry_of a) = fst (entry_of b) \<Longrightarrow> a = b"
    by (auto simp: entry_of_def prod_eq_iff)
  have s1: "sorted_wrt key_order ?st" using Cons.prems(1) by (rule sorted_so_assign)
  have s2: "set ?st \<inter> entry_of ` set es = {}"
    using Cons.prems(2) notin inj by (auto simp: set1 e entry_of_def)
  have s3: "fst ` set ?st \<inter> fst ` entry_of ` set es = {}"
  proof -
    have "(c, w) \<notin> fst ` entry_of ` set es"
      using notin by (auto simp: e entry_of_def)
    moreover have "fst ` set st \<inter> fst ` entry_of ` set es = {}"
      using Cons.prems(3) by auto
    ultimately show ?thesis by (auto simp: set1)
  qed
  have d: "distinct es" using Cons.prems(4) by simp
  show ?case
    using Cons.IH [OF s1 s2 s3 d] by (auto simp: e set1 entry_of_def)
qed

lemma sort_totals_props:
  "sorted_wrt key_order (sort_totals totals)
   \<and> set (sort_totals totals) = entry_of ` set (RBT.entries totals)"
proof -
  have d: "distinct (RBT.entries totals)"
    using RBT.distinct_entries [of totals] by (simp add: distinct_map)
  have eq: "sort_totals totals
      = fold (\<lambda>(word, count). so_assign (count, word) (word, count)) (RBT.entries totals) []"
    by (simp add: sort_totals_def RBT.fold_fold)
  show ?thesis
    unfolding eq using fold_so_assign [OF d, of "[]"] by simp
qed

lemma sorted_wrt_irrefl_distinct:
  "sorted_wrt P xs \<Longrightarrow> (\<And>x. \<not> P x x) \<Longrightarrow> distinct xs"
  by (induction xs) auto

text \<open>
  C4. The report built from any aggregate table is strictly ordered: of two entries the
  earlier one has the higher count or, with equal counts, the lexicographically smaller
  word. No word occurs twice, and the entries are those of the table.
\<close>

theorem report_is_strictly_ordered:
  "sorted_wrt (\<lambda>(w1, c1) (w2, c2). c1 > c2 \<or> (c1 = c2 \<and> w1 < w2)) (report (sort_totals totals))
   \<and> distinct (map fst (report (sort_totals totals)))
   \<and> set (report (sort_totals totals)) = set (RBT.entries totals)"
proof -
  let ?st = "sort_totals totals"
  let ?P = "\<lambda>(w1, c1) (w2 :: string, c2 :: int). c1 > c2 \<or> (c1 = c2 \<and> w1 < w2)"
  have sorted: "sorted_wrt key_order ?st" and sets: "set ?st = entry_of ` set (RBT.entries totals)"
    using sort_totals_props [of totals] by simp_all
  have form: "\<forall>x\<in>set ?st. fst x = (snd (snd x), fst (snd x))"
    using sets by (auto simp: entry_of_def)
  have "sorted_wrt (\<lambda>a b. ?P (snd a) (snd b)) ?st"
    using sorted form
    by (rule_tac sorted_wrt_mono_rel [of ?st key_order])
       (auto simp: key_order_def DefineSortOrder_def split: prod.splits)
  then have a: "sorted_wrt ?P (report ?st)"
    by (simp add: report_def sorted_wrt_map)
  have c: "set (report ?st) = set (RBT.entries totals)"
    by (auto simp: report_def sets entry_of_def image_image)
  have "distinct (report ?st)"
    using a by (rule sorted_wrt_irrefl_distinct) (auto split: prod.splits)
  moreover have "inj_on fst (set (RBT.entries totals))"
    using RBT.distinct_entries [of totals] by (simp add: distinct_map)
  ultimately have b: "distinct (map fst (report ?st))"
    using c by (simp add: distinct_map)
  show ?thesis using a b c by simp
qed

lemma foo_bar_report:
  "report (sort_totals foo_bar_table) = [(''foo'', 2), (''bar'', 1)]"
  by code_simp

text \<open>The spec's scenario \<^verbatim>\<open>"foo foo bar\n"\<close>: the report is \<open>foo 2\<close>, then \<open>bar 1\<close>.\<close>

theorem report_is_strictly_ordered_witness:
  "report (sort_totals foo_bar_table) = [(''foo'', 2), (''bar'', 1)]
   \<and> sorted_wrt (\<lambda>(w1, c1) (w2, c2). c1 > c2 \<or> (c1 = c2 \<and> w1 < w2))
        [(''foo'', 2), (''bar'', 1 :: int)]
   \<and> set [(''foo'', 2), (''bar'', 1)] = set (RBT.entries foo_bar_table)"
  using report_is_strictly_ordered [of foo_bar_table] foo_bar_report by simp

section \<open>The thread count (C6)\<close>

lemma atoi_65: "atoi ''65'' = 65"
  by (simp add: atoi_def isspace_def isdigit_def)

lemma atoi_500: "atoi ''500'' = 500"
  by (simp add: atoi_def isspace_def isdigit_def)

lemma parse_n65: "parse_options [''-n65'', ''src''] default_config = Inr (default_config\<lparr>nthreads := 65\<rparr>, [''src''])"
  by (simp add: atoi_65 NUL_def default_config_def)

lemma main_options_n65: "main_options [''-n65'', ''src''] = Inr (default_config\<lparr>nthreads := 65\<rparr>, ''src'')"
  by (simp add: main_options_def parse_n65 del: parse_options.simps)

lemma main_options_b500: "main_options [''-b500'', ''src''] = Inr (default_config\<lparr>nblocks := 127\<rparr>, ''src'')"
  by (simp add: main_options_def atoi_500 NUL_def default_config_def)

lemma start_loop_upt:
  "start_loop [a..<b] started
     = (if b \<le> MAXTHREADS \<or> b \<le> a then Inr (started @ [a..<b])
        else Inl (Index_out_of_bounds (max a MAXTHREADS)))"
proof (induction "b - a" arbitrary: a started)
  case 0
  then show ?case by simp
next
  case (Suc d)
  then have lt: "a < b" by simp
  have d: "d = b - Suc a" using Suc.hyps(2) by simp
  have eq: "[a..<b] = a # [Suc a..<b]" using lt by (rule upt_conv_Cons)
  have step: "start_loop [a..<b] started
      = (if a < MAXTHREADS then start_loop [Suc a..<b] (started @ [a])
         else Inl (Index_out_of_bounds a))"
    by (simp only: eq start_loop.simps)
  show ?case
  proof (cases "a < MAXTHREADS")
    case False
    then show ?thesis using lt by (simp add: step max_def)
  next
    case True
    show ?thesis
    proof (cases "b \<le> MAXTHREADS")
      case T2: True
      then show ?thesis using True lt Suc.hyps(1) [OF d, of "started @ [a]"] by (simp add: step eq)
    next
      case F2: False
      then have "\<not> b \<le> Suc a" using True by simp
      then show ?thesis
        using True F2 lt Suc.hyps(1) [OF d, of "started @ [a]"] by (simp add: step max_def)
    qed
  qed
qed

lemma start_threads_cases:
  "start_threads N
   = (if nat N \<le> MAXTHREADS then Inr [0..<nat N] else Inl (Index_out_of_bounds MAXTHREADS))"
  by (simp add: start_threads_def start_loop_upt)

text \<open>
  C6. The claim: the thread count is checked against the fixed maximum when the options
  are read, so every per-worker index stays inside the arrays for any \<^verbatim>\<open>-n\<close>.

  \<^verbatim>\<open>-n\<close> is stored as \<^verbatim>\<open>atoi\<close> returns it (\<^verbatim>\<open>-b\<close> is capped at 127, lemma
  \<open>main_options_b500\<close>): with \<^verbatim>\<open>-n65\<close> the options are accepted with 65 threads, and
  the loop that starts the workers writes \<^verbatim>\<open>ready_for_merge[64]\<close> and
  \<^verbatim>\<open>my_threads[64]\<close>, outside both arrays.
\<close>

theorem thread_count_is_not_checked:
  "main_options [''-n65'', ''src''] = Inr (default_config\<lparr>nthreads := 65\<rparr>, ''src'')
   \<and> start_threads (nthreads (default_config\<lparr>nthreads := 65\<rparr>))
     = Inl (Index_out_of_bounds 64)"
  by (simp add: main_options_n65 start_threads_cases MAXTHREADS_def)

section \<open>The queue (C2, C7)\<close>

lemma run_schedule_append:
  "run_schedule N (a @ b) q = Option.bind (run_schedule N a q) (run_schedule N b)"
  by (induction a arbitrary: q) (simp_all split: option.splits)

lemma failed_opens:
  "k \<le> fcount q \<Longrightarrow> producer q = P_open (replicate k (-1) @ rest) \<Longrightarrow>
   \<exists>fd. run_schedule N (replicate k Producer) q
        = Some (q\<lparr>fcount := fcount q - k, fdescs := fd, producer := P_open rest\<rparr>)"
proof (induction k arbitrary: q)
  case 0
  have "q = q\<lparr>fcount := fcount q, fdescs := fdescs q, producer := P_open rest\<rparr>"
    using "0.prems" by simp
  then show ?case by (auto intro: exI [of _ "fdescs q"])
next
  case (Suc k)
  define q1 where "q1 = q\<lparr>fcount := fcount q - 1,
      fdescs := (fdescs q)[free_ptr q mod FDESCS := -1],
      producer := P_open (replicate k (-1) @ rest)\<rparr>"
  have step: "thread_step N Producer q = Some q1"
    using Suc.prems by (simp add: thread_step_def fopener_step_def q1_def)
  have "k \<le> fcount q1" "producer q1 = P_open (replicate k (-1) @ rest)"
    using Suc.prems by (simp_all add: q1_def)
  from Suc.IH [OF this] obtain fd where
    "run_schedule N (replicate k Producer) q1
     = Some (q1\<lparr>fcount := fcount q1 - k, fdescs := fd, producer := P_open rest\<rparr>)" by blast
  then have "run_schedule N (replicate (Suc k) Producer) q
     = Some (q\<lparr>fcount := fcount q - Suc k, fdescs := fd, producer := P_open rest\<rparr>)"
    using step by (simp add: q1_def)
  then show ?case by blast
qed

lemma successful_opens:
  "length fds \<le> fcount q \<Longrightarrow> producer q = P_open (fds @ rest) \<Longrightarrow> -1 \<notin> set fds \<Longrightarrow>
   \<exists>fd. run_schedule N (replicate (length fds) Producer) q
        = Some (q\<lparr>fcount := fcount q - length fds, fdescs := fd,
                  opencount := opencount q + length fds,
                  free_ptr := free_ptr q + length fds, producer := P_open rest\<rparr>)"
proof (induction fds arbitrary: q)
  case Nil
  have "q = q\<lparr>fcount := fcount q, fdescs := fdescs q, opencount := opencount q,
              free_ptr := free_ptr q, producer := P_open rest\<rparr>"
    using Nil.prems by simp
  then show ?case by (auto intro: exI [of _ "fdescs q"])
next
  case (Cons x fds)
  define q1 where "q1 = q\<lparr>fcount := fcount q - 1,
      fdescs := (fdescs q)[free_ptr q mod FDESCS := x],
      opencount := opencount q + 1, free_ptr := free_ptr q + 1,
      producer := P_open (fds @ rest)\<rparr>"
  have step: "thread_step N Producer q = Some q1"
    using Cons.prems by (simp add: thread_step_def fopener_step_def q1_def)
  have "length fds \<le> fcount q1" "producer q1 = P_open (fds @ rest)" "-1 \<notin> set fds"
    using Cons.prems by (simp_all add: q1_def)
  from Cons.IH [OF this] obtain fd where
    "run_schedule N (replicate (length fds) Producer) q1
     = Some (q1\<lparr>fcount := fcount q1 - length fds, fdescs := fd,
                opencount := opencount q1 + length fds,
                free_ptr := free_ptr q1 + length fds, producer := P_open rest\<rparr>)" by blast
  then have "run_schedule N (replicate (length (x # fds)) Producer) q
     = Some (q\<lparr>fcount := fcount q - length (x # fds), fdescs := fd,
               opencount := opencount q + length (x # fds),
               free_ptr := free_ptr q + length (x # fds), producer := P_open rest\<rparr>)"
    using step by (simp add: q1_def)
  then show ?case by blast
qed

text \<open>
  C2. The claim: for a file that fails to open the producer logs, does not submit, and
  releases the free-slot unit it has reserved, so the queue never stalls however many
  opens fail.

  The failure branch of \<^verbatim>\<open>fopener\<close> has no \<^verbatim>\<open>fcount.release()\<close>: every failed open
  keeps its unit. With one worker and 64 files that all fail to open, the producer's
  first 65 steps (the 64 opens and the end of the file loop) lead to a state with no free
  slot and nothing to claim, in which the producer waits for a free slot to write the
  end marker, the worker waits for a handle, and neither has returned.
\<close>

theorem failed_opens_stall_the_queue:
  "\<exists>q. run_schedule 1 (replicate 65 Producer) (initial_queue 1 (replicate 64 (-1))) = Some q
      \<and> fcount q = 0 \<and> opencount q = 0 \<and> producer q = P_end 0 \<and> workers q = [W_claim]
      \<and> stalled 1 q"
proof -
  let ?q0 = "initial_queue 1 (replicate 64 (-1))"
  have "64 \<le> fcount ?q0" "producer ?q0 = P_open (replicate 64 (-1) @ [])"
    by (simp_all add: initial_queue_def FDESCS_def MAXTHREADS_def)
  from failed_opens [OF this, of 1] obtain fd where
    r64: "run_schedule 1 (replicate 64 Producer) ?q0
        = Some (?q0\<lparr>fcount := fcount ?q0 - 64, fdescs := fd, producer := P_open []\<rparr>)"
    by blast
  let ?q1 = "?q0\<lparr>fcount := fcount ?q0 - 64, fdescs := fd, producer := P_open []\<rparr>"
  have "replicate 65 Producer = replicate 64 Producer @ [Producer]"
    using replicate_add [of 64 1 Producer] by simp
  then have "run_schedule 1 (replicate 65 Producer) ?q0 = run_schedule 1 [Producer] ?q1"
    using r64 by (simp add: run_schedule_append)
  also have "\<dots> = Some (?q1\<lparr>producer := P_end 0\<rparr>)"
    by (simp add: thread_step_def fopener_step_def)
  finally have run: "run_schedule 1 (replicate 65 Producer) ?q0 = Some (?q1\<lparr>producer := P_end 0\<rparr>)" .
  have "stalled 1 (?q1\<lparr>producer := P_end 0\<rparr>)"
    by (simp add: stalled_def finished_def fopener_step_def wcounter_step_def initial_queue_def
        FDESCS_def MAXTHREADS_def)
  then show ?thesis
    using run by (simp add: initial_queue_def FDESCS_def MAXTHREADS_def)
qed

lemma filter_update_count:
  "i < length ws \<Longrightarrow>
   length (filter P (ws[i := x])) + (if P (ws ! i) then 1 else 0)
   = length (filter P ws) + (if P x then 1 else 0)"
proof (induction ws arbitrary: i)
  case Nil
  then show ?case by simp
next
  case (Cons w ws)
  then show ?case by (cases i) auto
qed

lemma inv_init: "queue_inv N (initial_queue N opens)"
  by (simp add: queue_inv_def initial_queue_def unclaimed_def in_flight_def pending_def is_have_def)

lemma inv_fopener:
  assumes inv: "queue_inv N q" and step: "fopener_step N q = Some q'"
  shows "queue_inv N q'"
proof (cases "producer q")
  case (P_open fds)
  show ?thesis
  proof (cases fds)
    case Nil
    then have "q' = q\<lparr>producer := P_end 0\<rparr>"
      using step P_open by (simp add: fopener_step_def)
    then show ?thesis
      using inv P_open by (simp add: queue_inv_def unclaimed_def in_flight_def pending_def)
  next
    case (Cons fd rest)
    then show ?thesis
      using inv step P_open
      by (auto simp: queue_inv_def fopener_step_def unclaimed_def in_flight_def pending_def Let_def
          split: if_splits)
  qed
next
  case (P_end n)
  then show ?thesis
    using inv step
    by (auto simp: queue_inv_def fopener_step_def unclaimed_def in_flight_def pending_def
        split: if_splits)
next
  case P_done
  then show ?thesis using step by (simp add: fopener_step_def)
qed

lemma inv_wcounter:
  assumes inv: "queue_inv N q" and step: "wcounter_step i q = Some q'"
  shows "queue_inv N q'"
proof -
  have i: "i < length (workers q)" using step by (simp add: wcounter_step_def split: if_splits)
  show ?thesis
  proof (cases "workers q ! i")
    case W_claim
    have "in_flight q' = in_flight q + 1"
      using step i W_claim filter_update_count [OF i, of is_have "W_have (fdescs q ! (next_ptr q mod FDESCS))"]
      by (auto simp: wcounter_step_def in_flight_def is_have_def Let_def split: if_splits)
    then show ?thesis
      using inv step i W_claim
      by (auto simp: queue_inv_def wcounter_step_def unclaimed_def pending_def Let_def split: if_splits)
  next
    case (W_have fd)
    have "in_flight q' + 1 = in_flight q"
      using step i W_have filter_update_count [OF i, of is_have W_exit]
        filter_update_count [OF i, of is_have W_claim]
      by (auto simp: wcounter_step_def in_flight_def is_have_def split: if_splits)
    then show ?thesis
      using inv step i W_have
      by (auto simp: queue_inv_def wcounter_step_def unclaimed_def pending_def split: if_splits)
  next
    case W_exit
    then show ?thesis using step i by (simp add: wcounter_step_def)
  qed
qed

lemma inv_run:
  "queue_inv N q \<Longrightarrow> run_schedule N sched q = Some q' \<Longrightarrow> queue_inv N q'"
proof (induction sched arbitrary: q)
  case Nil
  then show ?case by simp
next
  case (Cons t ts)
  then obtain q1 where s: "thread_step N t q = Some q1" and r: "run_schedule N ts q1 = Some q'"
    by (auto split: option.splits)
  have "queue_inv N q1"
  proof (cases t)
    case Producer
    then have "fopener_step N q = Some q1" using s by (simp add: thread_step_def)
    from inv_fopener [OF Cons.prems(1) this] show ?thesis .
  next
    case (Worker i)
    then have "wcounter_step i q = Some q1" using s by (simp add: thread_step_def)
    from inv_wcounter [OF Cons.prems(1) this] show ?thesis .
  qed
  then show ?case using Cons.IH r by blast
qed

text \<open>
  C7, as amended. The capacity of the queue is the constant \<^verbatim>\<open>FDESCS = MAXTHREADS = 64\<close>,
  whatever thread count is configured: in every state that the producer and \<open>N\<close>
  workers reach from the start, in any interleaving and for any results of \<^verbatim>\<open>open\<close>,
  at most \<^verbatim>\<open>FDESCS\<close> handles are submitted and not yet claimed.
\<close>

theorem unclaimed_at_most_FDESCS:
  assumes "run_schedule N sched (initial_queue N opens) = Some q"
  shows "unclaimed q \<le> FDESCS"
proof -
  have "queue_inv N (initial_queue N opens)" by (rule inv_init)
  from inv_run [OF this assms] show ?thesis
    by (auto simp: queue_inv_def unclaimed_def)
qed

theorem unclaimed_at_most_FDESCS_witness:
  "run_schedule 1 [Producer, Producer] (initial_queue 1 [3, 4])
     = Some ((initial_queue 1 [])\<lparr>fcount := 62, opencount := 2, free_ptr := 2,
          fdescs := (replicate 64 0)[0 := 3, 1 := 4]\<rparr>)
   \<and> unclaimed ((initial_queue 1 [])\<lparr>fcount := 62, opencount := 2, free_ptr := 2,
          fdescs := (replicate 64 0)[0 := 3, 1 := 4]\<rparr>) \<le> FDESCS"
proof -
  have r: "run_schedule 1 [Producer, Producer] (initial_queue 1 [3, 4])
     = Some ((initial_queue 1 [])\<lparr>fcount := 62, opencount := 2, free_ptr := 2,
          fdescs := (replicate 64 0)[0 := 3, 1 := 4]\<rparr>)"
    by (simp add: thread_step_def fopener_step_def initial_queue_def FDESCS_def MAXTHREADS_def)
  show ?thesis using r unclaimed_at_most_FDESCS [OF r] by simp
qed

text \<open>
  C7 as claimed (at most \<open>N\<close> unclaimed handles for \<open>N\<close> threads) fails: with one
  worker the producer submits 64 descriptors before any is claimed.
\<close>

theorem unclaimed_exceeds_thread_count:
  "\<exists>q. run_schedule 1 (replicate 64 Producer) (initial_queue 1 (map int [3..<67])) = Some q
      \<and> unclaimed q = 64 \<and> length (workers q) = 1"
proof -
  define fds where "fds = map int [3..<67]"
  let ?q0 = "initial_queue 1 fds"
  have len: "length fds = 64" by (simp add: fds_def)
  have "length fds \<le> fcount ?q0" "producer ?q0 = P_open (fds @ [])"
    by (simp_all add: len initial_queue_def FDESCS_def MAXTHREADS_def)
  moreover have "-1 \<notin> set fds" by (auto simp: fds_def)
  ultimately obtain fd where
    "run_schedule 1 (replicate (length fds) Producer) ?q0
     = Some (?q0\<lparr>fcount := fcount ?q0 - length fds, fdescs := fd,
                 opencount := opencount ?q0 + length fds,
                 free_ptr := free_ptr ?q0 + length fds, producer := P_open []\<rparr>)"
    using successful_opens [of fds ?q0 "[]" 1] by blast
  then have "run_schedule 1 (replicate 64 Producer) ?q0
     = Some (?q0\<lparr>fcount := fcount ?q0 - 64, fdescs := fd, opencount := opencount ?q0 + 64,
                 free_ptr := free_ptr ?q0 + 64, producer := P_open []\<rparr>)"
    by (simp only: len)
  moreover have "unclaimed (?q0\<lparr>fcount := fcount ?q0 - 64, fdescs := fd,
      opencount := opencount ?q0 + 64, free_ptr := free_ptr ?q0 + 64,
      producer := P_open []\<rparr>) = 64"
    by (simp add: unclaimed_def initial_queue_def)
  moreover have "length (workers (?q0\<lparr>fcount := fcount ?q0 - 64, fdescs := fd,
      opencount := opencount ?q0 + 64, free_ptr := free_ptr ?q0 + 64,
      producer := P_open []\<rparr>)) = 1"
    by (simp add: initial_queue_def)
  ultimately show ?thesis unfolding fds_def by blast
qed

section \<open>The invariant of the threads\<close>

text \<open>
  The scan of a file changes the table of its worker, the counters of blocks and bytes
  and, with the message about a long word, the output; it leaves the rest as it is.
\<close>

lemma report_lines_append: "report_lines (xs @ ys) = report_lines xs @ report_lines ys"
  by (induction xs rule: report_lines.induct) simp_all


lemma counts_found: "counts tn (found tn w g) = counts tn g"
  by (simp add: counts_def found_def)

lemma counts_found_split: "counts tn (found_split tn p s g) = counts tn g"
  by (simp add: found_split_def Let_def counts_found) (simp add: counts_def report_lines_append)

lemma counts_scanned: "counts n (scanned k g) = counts n g"
  by (simp add: counts_def scanned_def)

lemma counts_found_something:
  "found_something n buffer prefix sptr g = (p', s', g') \<Longrightarrow> counts n g' = counts n g"
  by (auto simp: found_something_def counts_found counts_found_split split: option.splits if_splits)

lemma counts_inner_loop:
  "inner_loop n nbytes cptr (buffer, prefix, sptr, g) = (b', p', s', g') \<Longrightarrow> counts n g' = counts n g"
proof (induction "nbytes - cptr" arbitrary: cptr buffer prefix sptr g)
  case 0
  then show ?case by (simp add: inner_loop.simps)
next
  case (Suc d)
  have lt: "cptr < nbytes" using Suc.hyps(2) by simp
  have d: "d = nbytes - (cptr + 1)" using Suc.hyps(2) by simp
  show ?case
  proof (cases "token_chars (buffer ! cptr)")
    case True
    have "inner_loop n nbytes (cptr + 1)
            (buffer, prefix, (if sptr = -1 then int cptr else sptr), g) = (b', p', s', g')"
      using Suc.prems lt True by (subst (asm) inner_loop.simps) simp
    from Suc.hyps(1) [OF d this] show ?thesis .
  next
    case False
    obtain p1 s1 g1 where fs: "found_something n (buffer[cptr := NUL]) prefix sptr g = (p1, s1, g1)"
      by (cases "found_something n (buffer[cptr := NUL]) prefix sptr g") auto
    have "inner_loop n nbytes (cptr + 1) (buffer[cptr := NUL], p1, -1, g1) = (b', p', s', g')"
      using Suc.prems lt False fs by (subst (asm) inner_loop.simps) simp
    from Suc.hyps(1) [OF d this] counts_found_something [OF fs] show ?thesis by simp
  qed
qed

lemma counts_save_prefix:
  "save_prefix nbytes (b, p, s, g) = Inr (b', p', s', g') \<Longrightarrow> g' = g"
  by (auto simp: save_prefix_def Let_def split: if_splits)

lemma counts_read_loop:
  "read_loop B n rest (buffer, prefix, sptr, g) = Inr (b', p', s', g') \<Longrightarrow> counts n g' = counts n g"
proof (induction "length rest" arbitrary: rest buffer prefix sptr g rule: less_induct)
  case less
  let ?nb = "min B (length rest)"
  show ?case
  proof (cases "0 < ?nb")
    case False
    then show ?thesis using less.prems by (subst (asm) read_loop.simps) (auto simp: Let_def)
  next
    case True
    obtain b1 p1 s1 g1 where il:
      "inner_loop n ?nb 0 (take ?nb rest @ [NUL], prefix, sptr, scanned ?nb g) = (b1, p1, s1, g1)"
      by (metis prod_cases4)
    have c1: "counts n g1 = counts n g"
      using counts_inner_loop [OF il] by (simp add: counts_scanned)
    show ?thesis
    proof (cases "save_prefix ?nb (b1, p1, s1, g1)")
      case (Inl e)
      then show ?thesis
        using less.prems True il by (subst (asm) read_loop.simps) (simp add: Let_def)
    next
      case (Inr st)
      obtain b2 p2 s2 g2 where st: "st = (b2, p2, s2, g2)" by (metis prod_cases4)
      have g2: "g2 = g1" using counts_save_prefix Inr st by blast
      have rec: "read_loop B n (drop ?nb rest) (b2, p2, s2, g2) = Inr (b', p', s', g')"
        using less.prems True il Inr st by (subst (asm) read_loop.simps) (simp add: Let_def)
      have shorter: "length (drop ?nb rest) < length rest" using True by simp
      from less.hyps [OF shorter rec] c1 g2 show ?thesis by simp
    qed
  qed
qed

lemma counts_wcounter_file:
  "wcounter_file B n content buffer g = Inr g' \<Longrightarrow> counts n g' = counts n g"
proof -
  assume a: "wcounter_file B n content buffer g = Inr g'"
  then obtain b1 p1 s1 g1 where rl: "read_loop B n content (buffer, None, -1, g) = Inr (b1, p1, s1, g1)"
    by (auto simp: wcounter_file_def split: sum.splits)
  obtain p2 s2 g2 where fs: "found_something n b1 p1 s1 g1 = (p2, s2, g2)"
    by (metis prod_cases3)
  have "g' = g2" using a rl fs by (simp add: wcounter_file_def)
  then show ?thesis
    using counts_read_loop [OF rl] counts_found_something [OF fs] by simp
qed


lemma fopener_step_workers:
  "fopener_step N q = Some q' \<Longrightarrow> workers q' = workers q \<and> claimed_count q' = claimed_count q"
  by (auto simp: fopener_step_def Let_def split: producer_pc.splits list.splits if_splits)

lemma wcounter_step_claim:
  "wcounter_step i q = Some q' \<Longrightarrow> workers q ! i = W_claim \<Longrightarrow>
   i < length (workers q) \<and> claimed_count q' = claimed_count q + 1
   \<and> (\<exists>fd. workers q' = (workers q)[i := W_have fd])"
  by (auto simp: wcounter_step_def Let_def split: if_splits)

lemma wcounter_step_have:
  "wcounter_step i q = Some q' \<Longrightarrow> workers q ! i = W_have fd \<Longrightarrow>
   i < length (workers q)
   \<and> claimed_count q' = (if fd = -2 then claimed_count q - 1 else claimed_count q)
   \<and> workers q' = (workers q)[i := (if fd = -2 then W_exit else W_claim)]"
  by (auto simp: wcounter_step_def Let_def split: if_splits)

lemma in_flight_claim:
  assumes "wcounter_step i q = Some q'" "workers q ! i = W_claim"
  shows "in_flight q' = in_flight q + 1"
proof -
  from wcounter_step_claim [OF assms] obtain fd where
    i: "i < length (workers q)" and w: "workers q' = (workers q)[i := W_have fd]" by auto
  show ?thesis
    using filter_update_count [OF i, of is_have "W_have fd"] assms(2) w
    by (simp add: in_flight_def is_have_def)
qed

lemma in_flight_have:
  assumes "wcounter_step i q = Some q'" "workers q ! i = W_have fd"
  shows "in_flight q' + 1 = in_flight q"
proof -
  from wcounter_step_have [OF assms] have
    i: "i < length (workers q)"
    and w: "workers q' = (workers q)[i := (if fd = -2 then W_exit else W_claim)]" by auto
  show ?thesis
    using filter_update_count [OF i, of is_have "if fd = -2 then W_exit else W_claim"] assms(2) w
    by (simp add: in_flight_def is_have_def)
qed







text \<open>The steps of the threads, case by case.\<close>

lemma main_step_cases [consumes 1, case_names Alloc Start Join]:
  assumes "main_step cfg s = Next s'"
  obtains
    (Alloc) n where "main_at s = Main_alloc n" "int n < nthreads cfg" "n < MAXTHREADS"
      "s' = s\<lparr>ready_for_merge := (ready_for_merge s)[n := Some 0], main_at := Main_start n\<rparr>"
  | (Start) n where "main_at s = Main_start n" "s' = s\<lparr>main_at := Main_alloc (n + 1)\<rparr>"
  | (Join) n where "main_at s = Main_alloc n" "\<not> int n < nthreads cfg"
      "s' = s\<lparr>main_at := Main_join\<rparr>"
  using assms by (auto simp: main_step_def split: main_pc.splits if_splits)

lemma fopener_sys_step_cases [consumes 1, case_names Found Queue Failed]:
  assumes "fopener_sys_step cfg dir visit s = Next s'"
  obtains
    (Found) "\<not> enumerated s"
      "s' = s\<lparr>enumerated := True,
                 globals_of := fopener_found cfg dir (length visit) (globals_of s)\<rparr>"
  | (Queue) q' where "enumerated s" "fopener_step (nat (nthreads cfg)) (queue_of s) = Some q'"
      "s' = s\<lparr>queue_of := q'\<rparr>"
  | (Failed) q' path where "enumerated s"
      "fopener_step (nat (nthreads cfg)) (queue_of s) = Some q'"
      "s' = s\<lparr>queue_of := q',
                 globals_of := (globals_of s)
                   \<lparr>stdout := stdout (globals_of s) @ [Unable_to_open path]\<rparr>\<rparr>"
  using assms
  by (auto simp: fopener_sys_step_def
      split: if_splits option.splits producer_pc.splits list.splits)

lemma wcounter_sys_step_cases [consumes 1, case_names Claim End Scan Acquire Return]:
  assumes "wcounter_sys_step cfg visit i s = Next s'"
  obtains
    (Claim) q' where "running cfg s i" "i < length (merge_at s)" "merge_at s ! i = In_queue"
      "wcounter_step i (queue_of s) = Some q'" "workers (queue_of s) ! i = W_claim"
      "s' = s\<lparr>queue_of := q',
                 globals_of := (globals_of s)\<lparr>file_count := file_count (globals_of s) + 1\<rparr>\<rparr>"
  | (End) q' where "running cfg s i" "i < length (merge_at s)" "merge_at s ! i = In_queue"
      "wcounter_step i (queue_of s) = Some q'" "workers (queue_of s) ! i = W_have (- 2)"
      "s' = s\<lparr>queue_of := q',
                 globals_of := (globals_of s)\<lparr>file_count := file_count (globals_of s) - 1\<rparr>,
                 merge_at := (merge_at s)[i := In_merge 1 1],
                 scan_tables := (scan_tables s)[i := sub_count (globals_of s) ! i]\<rparr>"
  | (Scan) q' fd g' where "running cfg s i" "i < length (merge_at s)"
      "merge_at s ! i = In_queue"
      "wcounter_step i (queue_of s) = Some q'" "workers (queue_of s) ! i = W_have fd"
      "fd \<noteq> - 2"
      "wcounter_file (nat (nblocks cfg) * BASICBLOCK) i (content_of visit fd) []
         (globals_of s) = Inr g'"
      "s' = s\<lparr>queue_of := q', globals_of := g', files_done := files_done s + 1\<rparr>"
  | (Acquire) partner b c where "running cfg s i" "i < length (merge_at s)"
      "merge_at s ! i = In_merge partner b"
      "parallel_merge cfg" "int (i + partner) < nthreads cfg" "i AND b = 0"
      "i + partner < MAXTHREADS" "ready_for_merge s ! (i + partner) = Some c" "0 < c"
      "s' = s\<lparr>ready_for_merge := (ready_for_merge s)[i + partner := Some (c - 1)],
                 globals_of := (globals_of s)
                   \<lparr>sub_count := (sub_count (globals_of s))
                      [i := merge_into (sub_count (globals_of s) ! (i + partner))
                              (sub_count (globals_of s) ! i)]\<rparr>,
                 merge_at := (merge_at s)[i := In_merge (2 * partner) (2 * b)]\<rparr>"
  | (Return) partner b c where "running cfg s i" "i < length (merge_at s)"
      "merge_at s ! i = In_merge partner b"
      "parallel_merge cfg \<and> int (i + partner) < nthreads cfg \<longrightarrow> i AND b \<noteq> 0"
      "ready_for_merge s ! i = Some c"
      "s' = s\<lparr>ready_for_merge := (ready_for_merge s)[i := Some (c + 1)],
                 merge_at := (merge_at s)[i := Worker_returned]\<rparr>"
proof -
  from assms have r: "running cfg s i" and i: "i < length (merge_at s)"
    by (auto simp: wcounter_sys_step_def split: if_splits)
  from assms r i have st: "(case merge_at s ! i of
           In_queue \<Rightarrow>
             (case wcounter_step i (queue_of s) of
                None \<Rightarrow> Blocked
              | Some q' \<Rightarrow>
                  (case workers (queue_of s) ! i of
                     W_claim \<Rightarrow>
                       Next (s\<lparr>queue_of := q',
                               globals_of := (globals_of s)
                                 \<lparr>file_count := file_count (globals_of s) + 1\<rparr>\<rparr>)
                   | W_have fdesc \<Rightarrow>
                       if fdesc = -2
                       then Next (s\<lparr>queue_of := q',
                                     globals_of := (globals_of s)
                                       \<lparr>file_count := file_count (globals_of s) - 1\<rparr>,
                                     merge_at := (merge_at s)[i := In_merge 1 1],
                                     scan_tables := (scan_tables s)
                                       [i := sub_count (globals_of s) ! i]\<rparr>)
                       else
                         (case wcounter_file (nat (nblocks cfg) * BASICBLOCK) i
                                 (content_of visit fdesc) [] (globals_of s) of
                            Inl e \<Rightarrow> Crashed e
                          | Inr g' \<Rightarrow>
                              Next (s\<lparr>queue_of := q', globals_of := g',
                                      files_done := files_done s + 1\<rparr>))
                   | W_exit \<Rightarrow> Blocked))
         | In_merge partner b \<Rightarrow>
             if parallel_merge cfg \<and> int (i + partner) < nthreads cfg then
               (if i AND b \<noteq> 0 then release_own i s
                else if MAXTHREADS \<le> i + partner
                then Crashed (Index_out_of_bounds (i + partner))
                else
                  (case ready_for_merge s ! (i + partner) of
                     None \<Rightarrow> Crashed (Null_dereference (i + partner))
                   | Some c \<Rightarrow>
                       if c = 0 then Blocked
                       else
                         Next (s\<lparr>ready_for_merge :=
                                   (ready_for_merge s)[i + partner := Some (c - 1)],
                                 globals_of := (globals_of s)
                                   \<lparr>sub_count := (sub_count (globals_of s))
                                      [i := merge_into (sub_count (globals_of s) ! (i + partner))
                                              (sub_count (globals_of s) ! i)]\<rparr>,
                                 merge_at := (merge_at s)[i := In_merge (2 * partner) (2 * b)]\<rparr>)))
             else release_own i s
         | Worker_returned \<Rightarrow> Blocked) = Next s'"
    by (simp add: wcounter_sys_step_def split: if_splits)
  show thesis
  proof (cases "merge_at s ! i")
    case In_queue
    then obtain q' where q': "wcounter_step i (queue_of s) = Some q'"
      using st by (auto split: option.splits)
    show thesis
    proof (cases "workers (queue_of s) ! i")
      case W_claim
      show thesis by (rule Claim [OF r i In_queue q' W_claim]) (use st In_queue q' W_claim in simp)
    next
      case (W_have fd)
      show thesis
      proof (cases "fd = - 2")
        case True
        show thesis
          by (rule End [OF r i In_queue q' W_have [unfolded True]])
             (use st In_queue q' W_have True in simp)
      next
        case False
        then obtain g' where g': "wcounter_file (nat (nblocks cfg) * BASICBLOCK) i
            (content_of visit fd) [] (globals_of s) = Inr g'"
          using st In_queue q' W_have by (auto split: sum.splits)
        show thesis
          by (rule Scan [OF r i In_queue q' W_have False g'])
             (use st In_queue q' W_have False g' in simp)
      qed
    next
      case W_exit
      then show thesis using st In_queue q' by simp
    qed
  next
    case (In_merge partner b)
    show thesis
    proof (cases "parallel_merge cfg \<and> int (i + partner) < nthreads cfg \<and> i AND b = 0")
      case True
      then obtain c where c: "ready_for_merge s ! (i + partner) = Some c" and pos: "0 < c"
        and lt: "i + partner < MAXTHREADS"
        using st In_merge by (auto split: if_splits option.splits)
      show thesis
        by (rule Acquire [OF r i In_merge _ _ _ lt c pos])
           (use True st In_merge c pos lt in simp_all)
    next
      case False
      then have rel: "release_own i s = Next s'"
        using st In_merge by (auto split: if_splits)
      then obtain c where c: "ready_for_merge s ! i = Some c"
        by (auto simp: release_own_def split: option.splits)
      show thesis
        by (rule Return [OF r i In_merge _ c])
           (use False rel c in \<open>auto simp: release_own_def\<close>)
    qed
  next
    case Worker_returned
    then show thesis using st by simp
  qed
qed








section \<open>The merge in a run\<close>

text \<open>
  The invariant of the merge holds in every state that an interleaving reaches. The
  step of a worker that takes its partner's table is the one that needs the arithmetic:
  the partner of worker \<open>i\<close> at \<open>partner = 2 ^ k\<close> is \<open>i + 2 ^ k\<close>, where
  \<open>2 ^ (k + 1)\<close> divides \<open>i\<close>, and it has left its own loop at \<open>2 ^ k\<close> or at the
  end of the workers.
\<close>

lemma range_sum_cong:
  assumes "\<And>m. lo \<le> m \<Longrightarrow> m < hi \<Longrightarrow> RBT.lookup (T' ! m) = RBT.lookup (T ! m)"
  shows "range_sum T' lo hi = range_sum T lo hi"
  unfolding range_sum_def
  by (rule fold_cong) (use assms in auto)

lemma dvd_next:
  fixes n :: nat
  assumes "2 ^ k dvd n" "n AND 2 ^ k = 0"
  shows "2 ^ Suc k dvd n"
proof -
  obtain q where q: "n = 2 ^ k * q" using assms(1) by (auto elim: dvdE)
  have "\<not> bit n k" using assms(2) by (simp add: and_exp_eq_0_iff_not_bit)
  then have "even q" using q by (simp add: bit_iff_odd)
  then obtain r where "q = 2 * r" by (auto elim: evenE)
  then show ?thesis using q by simp
qed

lemma partner_span:
  fixes i :: nat
  assumes d: "2 ^ Suc k dvd i" and dj: "2 ^ j dvd i + 2 ^ k"
    and c: "N \<le> i + 2 ^ k + 2 ^ j \<or> (i + 2 ^ k) AND 2 ^ j \<noteq> 0"
  shows "min (i + 2 ^ k + 2 ^ j) N = min (i + 2 ^ k + 2 ^ k) N"
proof -
  obtain q where q: "i = 2 ^ Suc k * q" using d by (auto elim: dvdE)
  have m: "i + 2 ^ k = 2 ^ k * (2 * q + 1)" using q by (simp add: algebra_simps)
  have jk: "j \<le> k"
  proof (rule ccontr)
    assume "\<not> j \<le> k"
    then have "Suc k \<le> j" by simp
    then have "(2::nat) ^ Suc k dvd 2 ^ j" by (rule le_imp_power_dvd)
    then have "2 ^ Suc k dvd i + 2 ^ k" using dj by (rule dvd_trans)
    then have "(2::nat) ^ Suc k dvd 2 ^ k" using d by (simp add: dvd_add_right_iff)
    then have "(2::nat) ^ Suc k \<le> 2 ^ k" by (rule dvd_imp_le) simp
    then show False by simp
  qed
  show ?thesis
  proof (cases "(i + 2 ^ k) AND 2 ^ j \<noteq> 0")
    case True
    have "j = k"
    proof (rule ccontr)
      assume "j \<noteq> k"
      then have lt: "j < k" using jk by simp
      have "(2 ^ k * (2 * q + 1)) AND 2 ^ j = 0" by (rule and_pow_zero [OF lt])
      then show False using True m by simp
    qed
    then show ?thesis by simp
  next
    case False
    then have a: "N \<le> i + 2 ^ k + 2 ^ j" using c by simp
    have "(2::nat) ^ j \<le> 2 ^ k" using jk by simp
    then have b: "N \<le> i + 2 ^ k + 2 ^ k" using a by linarith
    show ?thesis using a b by (simp add: min_absorb2)
  qed
qed

lemma covers_frame:
  assumes c: "covers s n hi"
    and sub: "sub_count (globals_of s') ! n = sub_count (globals_of s) ! n"
    and T: "\<forall>m. m \<noteq> i \<longrightarrow> scan_tables s' ! m = scan_tables s ! m"
    and M: "\<forall>m. m \<noteq> i \<longrightarrow> merge_at s' ! m = merge_at s ! m"
    and i: "i \<noteq> n" "merge_at s ! i \<noteq> Worker_returned"
  shows "covers s' n hi"
proof -
  have out: "\<And>m. n \<le> m \<Longrightarrow> m < hi \<Longrightarrow> m \<noteq> i"
    using c i by (auto simp: covers_def le_less)
  have "range_sum (scan_tables s') n hi = range_sum (scan_tables s) n hi"
    by (rule range_sum_cong) (use T out in auto)
  then show ?thesis
    using c sub M out by (auto simp: covers_def)
qed

lemma worker_inv_frame:
  assumes w: "worker_inv cfg s n"
    and sub: "sub_count (globals_of s') ! n = sub_count (globals_of s) ! n"
    and T: "\<forall>m. m \<noteq> i \<longrightarrow> scan_tables s' ! m = scan_tables s ! m"
    and M: "\<forall>m. m \<noteq> i \<longrightarrow> merge_at s' ! m = merge_at s ! m"
    and i: "i \<noteq> n" "merge_at s ! i \<noteq> Worker_returned"
  shows "worker_inv cfg s' n"
proof -
  have same: "merge_at s' ! n = merge_at s ! n" using M i(1) by simp
  have cf: "\<And>hi. covers s n hi \<Longrightarrow> covers s' n hi"
    by (rule covers_frame [OF _ sub T M i])
  show ?thesis
    using w cf unfolding worker_inv_def same
    by (auto split: merge_pc.splits)
qed

lemma worker_inv_same:
  assumes "merge_at s' = merge_at s"
    "sub_count (globals_of s') = sub_count (globals_of s)"
    "scan_tables s' = scan_tables s"
  shows "worker_inv cfg s' n = worker_inv cfg s n"
proof -
  have c: "covers s' = covers s"
    by (intro ext) (simp add: covers_def assms)
  show ?thesis unfolding worker_inv_def c assms(1) by (rule refl)
qed

lemma running_bound:
  "main_bound cfg s \<Longrightarrow> running cfg s i \<Longrightarrow> i < MAXTHREADS"
  by (auto simp: main_bound_def running_def split: main_pc.splits)

lemma merge_inv_init: "merge_inv cfg (initial_system cfg visit)"
  by (auto simp: merge_inv_def initial_system_def initial_globals_def main_bound_def
      worker_inv_def)

lemma merge_inv_main:
  assumes step: "main_step cfg s = Next s'" and inv: "merge_inv cfg s"
  shows "merge_inv cfg s'"
  using step
proof (cases rule: main_step_cases)
  case (Alloc n)
  have w: "\<And>k. worker_inv cfg s' k = worker_inv cfg s k"
    by (rule worker_inv_same) (simp_all add: Alloc(4))
  show ?thesis
    using inv Alloc(2,3) unfolding merge_inv_def w
    by (auto simp: Alloc(4) main_bound_def nth_list_update)
next
  case (Start n)
  have w: "\<And>k. worker_inv cfg s' k = worker_inv cfg s k"
    by (rule worker_inv_same) (simp_all add: Start(2))
  show ?thesis
    using inv Start(1) unfolding merge_inv_def w
    by (auto simp: Start(2) main_bound_def)
next
  case (Join n)
  have w: "\<And>k. worker_inv cfg s' k = worker_inv cfg s k"
    by (rule worker_inv_same) (simp_all add: Join(3))
  show ?thesis
    using inv Join(1,2) unfolding merge_inv_def w
    by (auto simp: Join(3) main_bound_def)
qed

lemma main_bound_same: "main_at s' = main_at s \<Longrightarrow> main_bound cfg s' = main_bound cfg s"
  by (simp add: main_bound_def)

lemma merge_inv_fopener:
  assumes step: "fopener_sys_step cfg dir visit s = Next s'" and inv: "merge_inv cfg s"
  shows "merge_inv cfg s'"
proof -
  have eq: "merge_at s' = merge_at s" "sub_count (globals_of s') = sub_count (globals_of s)"
    "scan_tables s' = scan_tables s" "ready_for_merge s' = ready_for_merge s"
    "main_at s' = main_at s"
    using step by (cases rule: fopener_sys_step_cases; simp add: fopener_found_def)+
  show ?thesis
    using inv unfolding merge_inv_def worker_inv_same [OF eq(1,2,3)] main_bound_same [OF eq(5)]
    by (simp add: eq)
qed


lemma others_kept:
  assumes "counts i g' = counts i g"
  shows "length (sub_count g') = length (sub_count g)"
    and "n \<noteq> i \<Longrightarrow> sub_count g' ! n = sub_count g ! n"
proof -
  have e: "(sub_count g')[i := RBT.empty] = (sub_count g)[i := RBT.empty]"
    using assms by (simp add: counts_def)
  from arg_cong [OF e, of length] show "length (sub_count g') = length (sub_count g)" by simp
  assume "n \<noteq> i"
  with arg_cong [OF e, of "\<lambda>l. l ! n"] show "sub_count g' ! n = sub_count g ! n" by simp
qed

lemma merge_inv_wcounter:
  assumes step: "wcounter_sys_step cfg visit i s = Next s'" and inv: "merge_inv cfg s"
  shows "merge_inv cfg s'"
proof -
  let ?N = "nat (nthreads cfg)"
  have len: "length (sub_count (globals_of s)) = MAXTHREADS" "length (scan_tables s) = MAXTHREADS"
    "length (ready_for_merge s) = MAXTHREADS" "length (merge_at s) = ?N"
    and mb: "main_bound cfg s"
    and winv: "\<And>n. n < ?N \<Longrightarrow> worker_inv cfg s n"
    and sem: "\<And>m c. m < MAXTHREADS \<Longrightarrow> ready_for_merge s ! m = Some c \<Longrightarrow> 0 < c
                \<Longrightarrow> m < ?N \<and> merge_at s ! m = Worker_returned"
    using inv by (auto simp: merge_inv_def)
  from step show ?thesis
  proof (cases rule: wcounter_sys_step_cases)
    case (Claim q')
    have w: "\<And>k. worker_inv cfg s' k = worker_inv cfg s k"
      by (rule worker_inv_same) (simp_all add: Claim(6))
    show ?thesis
      using inv unfolding merge_inv_def w by (simp add: Claim(6) main_bound_def)
  next
    case (Scan q' fd g')
    have c: "counts i g' = counts i (globals_of s)" by (rule counts_wcounter_file [OF Scan(7)])
    note keep = others_kept [OF c]
    have w: "worker_inv cfg s' n" if n: "n < ?N" for n
    proof (cases "n = i")
      case True
      then show ?thesis using Scan(3) by (simp add: worker_inv_def Scan(8))
    next
      case False
      show ?thesis
        by (rule worker_inv_frame [OF winv [OF n], of _ i])
           (use False Scan(3) keep(2) in \<open>simp_all add: Scan(8)\<close>)
    qed
    show ?thesis
      using len mb sem w keep(1) unfolding merge_inv_def
      by (simp add: Scan(8) main_bound_def)
  next
    case (End q')
    have i64: "i < MAXTHREADS" by (rule running_bound [OF mb End(1)])
    have iN: "i < ?N" using End(2) len by simp
    have w: "worker_inv cfg s' n" if n: "n < ?N" for n
    proof (cases "n = i")
      case True
      have "covers s' i (min (i + 2 ^ 0) ?N)"
        using iN i64 len by (auto simp: covers_def End(6) range_sum_single min_def)
      then show ?thesis
        using True End(2) by (auto simp: worker_inv_def End(6) intro: exI [of _ 0])
    next
      case False
      show ?thesis
        by (rule worker_inv_frame [OF winv [OF n], of _ i])
           (use False End(3) in \<open>simp_all add: End(6)\<close>)
    qed
    have s: "m < ?N \<and> merge_at s' ! m = Worker_returned"
      if "m < MAXTHREADS" "ready_for_merge s' ! m = Some c" "0 < c" for m c
    proof -
      have r: "m < ?N \<and> merge_at s ! m = Worker_returned"
        using sem [of m c] that by (simp add: End(6))
      then have "m \<noteq> i" using End(3) by auto
      then show ?thesis using r by (simp add: End(6))
    qed
    show ?thesis
      using len mb s w unfolding merge_inv_def
      by (simp add: End(6) main_bound_def)
  next
    case (Return partner b c)
    have iN: "i < ?N" using Return(2) len by simp
    have nr: "merge_at s ! i \<noteq> Worker_returned" using Return(3) by simp
    have w: "worker_inv cfg s' n" if n: "n < ?N" for n
    proof (cases "n = i")
      case True
      from winv [OF iN] Return(3) obtain k where k: "partner = 2 ^ k" "b = 2 ^ k" "2 ^ k dvd i"
        "\<not> parallel_merge cfg \<longrightarrow> k = 0" "covers s i (min (i + 2 ^ k) ?N)"
        by (auto simp: worker_inv_def)
      have c': "covers s' i (min (i + 2 ^ k) ?N)"
        using k(5) by (auto simp: covers_def Return(6))
      have conv: "(int (i + 2 ^ k) < nthreads cfg) = (i + 2 ^ k < ?N)" by arith
      have r4: "parallel_merge cfg \<and> i + 2 ^ k < ?N \<longrightarrow> i AND 2 ^ k \<noteq> 0"
        using Return(4) unfolding k(1,2) conv .
      have cond: "if parallel_merge cfg then ?N \<le> i + 2 ^ k \<or> i AND 2 ^ k \<noteq> 0 else k = 0"
        using r4 k(4) by auto
      show ?thesis
        using True Return(2) k(3) c' cond
        by (auto simp: worker_inv_def Return(6) intro!: exI [of _ k])
    next
      case False
      show ?thesis
        by (rule worker_inv_frame [OF winv [OF n], of _ i])
           (use False nr in \<open>simp_all add: Return(6)\<close>)
    qed
    have s: "m < ?N \<and> merge_at s' ! m = Worker_returned"
      if "m < MAXTHREADS" "ready_for_merge s' ! m = Some c'" "0 < c'" for m c'
    proof (cases "m = i")
      case True
      then show ?thesis using iN Return(2) by (simp add: Return(6))
    next
      case False
      then show ?thesis using sem [of m c'] that by (simp add: Return(6))
    qed
    show ?thesis
      using len mb s w unfolding merge_inv_def
      by (simp add: Return(6) main_bound_def)
  next
    case (Acquire partner b c)
    have iN: "i < ?N" using Acquire(2) len by simp
    have i64: "i < MAXTHREADS" by (rule running_bound [OF mb Acquire(1)])
    have nr: "merge_at s ! i \<noteq> Worker_returned" using Acquire(3) by simp
    from winv [OF iN] Acquire(3) obtain k where k: "partner = 2 ^ k" "b = 2 ^ k" "2 ^ k dvd i"
      "covers s i (min (i + 2 ^ k) ?N)"
      by (auto simp: worker_inv_def)
    let ?m = "i + 2 ^ k"
    have mN: "?m < ?N" using Acquire(5) unfolding k(1) by arith
    have m64: "?m < MAXTHREADS" using Acquire(7) k(1) by simp
    have mret: "merge_at s ! ?m = Worker_returned"
      using sem [OF m64, of c] Acquire(8,9) k(1) by simp
    from winv [OF mN] mret Acquire(4) obtain j where j: "2 ^ j dvd ?m"
      "?N \<le> ?m + 2 ^ j \<or> ?m AND 2 ^ j \<noteq> 0" "covers s ?m (min (?m + 2 ^ j) ?N)"
      by (auto simp: worker_inv_def)
    have d: "2 ^ Suc k dvd i" using dvd_next [OF k(3)] Acquire(6) k(2) by simp
    have span: "min (?m + 2 ^ j) ?N = min (?m + 2 ^ k) ?N"
      by (rule partner_span [OF d j(1,2)])
    let ?hi = "min (i + 2 ^ Suc k) ?N"
    have hi: "min (?m + 2 ^ k) ?N = ?hi" by simp
    have cm: "covers s ?m ?hi" using j(3) span hi by simp
    have ci: "covers s i ?m" using k(4) mN by (simp add: min_def)
    have w: "worker_inv cfg s' n" if n: "n < ?N" for n
    proof (cases "n = i")
      case True
      have "RBT.lookup (sub_count (globals_of s') ! i)
          = add_counts (RBT.lookup (sub_count (globals_of s) ! i))
              (RBT.lookup (sub_count (globals_of s) ! ?m))"
        using i64 len k(1) by (simp add: Acquire(10) lookup_merge_into)
      also have "\<dots> = add_counts (range_sum (scan_tables s) i ?m) (range_sum (scan_tables s) ?m ?hi)"
        using ci cm by (simp add: covers_def)
      also have "\<dots> = range_sum (scan_tables s) i ?hi"
        by (rule range_sum_split) (use mN in simp_all)
      finally have tab: "RBT.lookup (sub_count (globals_of s') ! i)
          = range_sum (scan_tables s') i ?hi" by (simp add: Acquire(10))
      have ret: "merge_at s' ! m = Worker_returned" if "i < m" "m < ?hi" for m
      proof -
        have "merge_at s ! m = Worker_returned"
        proof (cases m ?m rule: linorder_cases)
          case less
          then show ?thesis using ci that(1) by (simp add: covers_def)
        next
          case equal
          then show ?thesis using mret by simp
        next
          case greater
          then show ?thesis using cm that(2) by (simp add: covers_def)
        qed
        then show ?thesis using that(1) by (simp add: Acquire(10))
      qed
      have "covers s' i ?hi" using tab ret by (simp add: covers_def)
      then show ?thesis
        using True Acquire(2,4) k(1,2) d
        by (auto simp: worker_inv_def Acquire(10) intro!: exI [of _ "Suc k"])
    next
      case False
      show ?thesis
        by (rule worker_inv_frame [OF winv [OF n], of _ i])
           (use False nr in \<open>simp_all add: Acquire(10)\<close>)
    qed
    have s: "m < ?N \<and> merge_at s' ! m = Worker_returned"
      if "m < MAXTHREADS" "ready_for_merge s' ! m = Some c'" "0 < c'" for m c'
    proof -
      have r: "m < ?N \<and> merge_at s ! m = Worker_returned"
      proof (cases "m = ?m")
        case True
        then show ?thesis using mN mret by simp
      next
        case False
        then show ?thesis using sem [of m c'] that k(1) by (simp add: Acquire(10))
      qed
      then have "m \<noteq> i" using nr by auto
      then show ?thesis using r by (simp add: Acquire(10))
    qed
    show ?thesis
      using len mb s w unfolding merge_inv_def
      by (simp add: Acquire(10) main_bound_def)
  qed
qed

lemma merge_inv_step:
  "sys_step cfg dir visit t s = Next s' \<Longrightarrow> merge_inv cfg s \<Longrightarrow> merge_inv cfg s'"
  by (cases t) (simp_all add: sys_step_def merge_inv_main merge_inv_fopener merge_inv_wcounter)

lemma merge_inv_steps:
  "steps cfg dir visit sched s = Next s' \<Longrightarrow> merge_inv cfg s \<Longrightarrow> merge_inv cfg s'"
proof (induction sched arbitrary: s)
  case Nil
  then show ?case by simp
next
  case (Cons t ts)
  then obtain s1 where s1: "sys_step cfg dir visit t s = Next s1"
    and rest: "steps cfg dir visit ts s1 = Next s'"
    by (auto split: step.splits)
  show ?case by (rule Cons.IH [OF rest merge_inv_step [OF s1 Cons.prems(2)]])
qed

lemma merge_inv_run_threads:
  "run_threads cfg dir files sched = Next s \<Longrightarrow> merge_inv cfg s"
  unfolding run_threads_def by (rule merge_inv_steps [OF _ merge_inv_init])

text \<open>
  When an interleaving has taken all threads to the joins, the aggregate table that
  \<^verbatim>\<open>main\<close> sorts has, with the parallel merge as without it, the entries of the
  sequential fold of the tables that the workers had when they left the queue.
\<close>

lemma aggregate_table_at_joins:
  assumes run: "run_threads cfg dir files sched = Next s" and j: "joined s"
    and pos: "0 < nthreads cfg"
  shows "RBT.entries (if parallel_merge cfg then sub_count (globals_of s) ! 0
                      else sequential_totals (nat (nthreads cfg)) (sub_count (globals_of s)))
       = RBT.entries (sequential_totals (nat (nthreads cfg)) (scan_tables s))"
proof -
  let ?N = "nat (nthreads cfg)"
  have inv: "merge_inv cfg s" by (rule merge_inv_run_threads [OF run])
  have len: "length (merge_at s) = ?N" using inv by (simp add: merge_inv_def)
  have ret: "merge_at s ! n = Worker_returned" if "n < ?N" for n
    using j that len by (simp add: joined_def list_all_length)
  have w: "worker_inv cfg s n" if "n < ?N" for n
    using inv that by (simp add: merge_inv_def)
  show ?thesis
  proof (cases "parallel_merge cfg")
    case True
    have 0: "0 < ?N" using pos by simp
    from w [OF 0] ret [OF 0] True obtain k where
      "?N \<le> 2 ^ k \<or> (0::nat) AND 2 ^ k \<noteq> 0" "covers s 0 (min (2 ^ k) ?N)"
      by (auto simp: worker_inv_def)
    then have "RBT.lookup (sub_count (globals_of s) ! 0) = range_sum (scan_tables s) 0 ?N"
      by (simp add: covers_def min_absorb2)
    then show ?thesis
      using True by (simp add: RBT.entries_lookup lookup_sequential_totals)
  next
    case False
    have "RBT.lookup (sub_count (globals_of s) ! n) = RBT.lookup (scan_tables s ! n)"
      if "n < ?N" for n
    proof -
      from w [OF that] ret [OF that] False have "covers s n (min (n + 2 ^ 0) ?N)"
        by (auto simp: worker_inv_def)
      then show ?thesis using that by (simp add: covers_def range_sum_single min_def)
    qed
    then have "range_sum (sub_count (globals_of s)) 0 ?N = range_sum (scan_tables s) 0 ?N"
      by (intro range_sum_cong) simp
    then show ?thesis
      using False by (simp add: RBT.entries_lookup lookup_sequential_totals)
  qed
qed

section \<open>Failed opens and the thread count in a run\<close>

lemma leak_init: "leak_inv opens N (initial_queue N opens)"
  using inv_init [of N opens]
  by (simp add: leak_inv_def initial_queue_def in_flight_def is_have_def failures_def)

lemma leak_fopener:
  assumes inv: "leak_inv opens N q" and step: "fopener_step N q = Some q'"
  shows "leak_inv opens N q'"
proof -
  have qi: "queue_inv N q" using inv by (simp add: leak_inv_def)
  have qi': "queue_inv N q'" by (rule inv_fopener [OF qi step])
  have fl: "in_flight q' = in_flight q"
    using fopener_step_workers [OF step] by (simp add: in_flight_def)
  show ?thesis
  proof (cases "producer q")
    case (P_open fds)
    then obtain seen where seen: "opens = seen @ fds"
      and le: "fcount q + free_ptr q + in_flight q + failures seen \<le> FDESCS + next_ptr q"
      using inv by (auto simp: leak_inv_def)
    show ?thesis
    proof (cases fds)
      case Nil
      then have "q' = q\<lparr>producer := P_end 0\<rparr>"
        using step P_open by (simp add: fopener_step_def)
      then show ?thesis
        using qi' seen le Nil by (simp add: leak_inv_def in_flight_def)
    next
      case (Cons fd rest)
      have seen': "opens = (seen @ [fd]) @ rest" using seen Cons by simp
      have pos: "0 < fcount q" using step P_open Cons by (auto simp: fopener_step_def split: if_splits)
      show ?thesis
      proof (cases "fd = -1")
        case True
        then have q': "q' = q\<lparr>fcount := fcount q - 1,
                                fdescs := (fdescs q)[free_ptr q mod FDESCS := fd],
                                producer := P_open rest\<rparr>"
          using step P_open Cons pos by (simp add: fopener_step_def Let_def)
        have "fcount q' + free_ptr q' + in_flight q' + failures (seen @ [fd])
              \<le> FDESCS + next_ptr q'"
          using le pos True fl by (simp add: q' failures_def)
        then show ?thesis
          using qi' seen' by (auto simp: leak_inv_def q')
      next
        case False
        then have q': "q' = q\<lparr>fcount := fcount q - 1,
                                fdescs := (fdescs q)[free_ptr q mod FDESCS := fd],
                                opencount := opencount q + 1, free_ptr := free_ptr q + 1,
                                producer := P_open rest\<rparr>"
          using step P_open Cons pos by (simp add: fopener_step_def Let_def)
        have "fcount q' + free_ptr q' + in_flight q' + failures (seen @ [fd])
              \<le> FDESCS + next_ptr q'"
          using le pos False fl by (simp add: q' failures_def)
        then show ?thesis
          using qi' seen' by (auto simp: leak_inv_def q')
      qed
    qed
  next
    case (P_end n)
    then have le: "fcount q + free_ptr q + in_flight q + failures opens \<le> FDESCS + next_ptr q"
      using inv by (simp add: leak_inv_def)
    show ?thesis
    proof (cases "n < N")
      case True
      then have pos: "0 < fcount q" using step P_end by (auto simp: fopener_step_def split: if_splits)
      have q': "q' = q\<lparr>fcount := fcount q - 1,
                         fdescs := (fdescs q)[free_ptr q mod FDESCS := -2],
                         free_ptr := free_ptr q + 1, producer := P_end (n + 1)\<rparr>"
        using step P_end True pos by (simp add: fopener_step_def)
      show ?thesis
        using qi' le pos fl by (simp add: leak_inv_def q')
    next
      case False
      then have q': "q' = q\<lparr>opencount := opencount q + N, producer := P_done\<rparr>"
        using step P_end by (simp add: fopener_step_def)
      have "n \<le> N" "opencount q + next_ptr q + n = free_ptr q"
        using qi P_end by (simp_all add: queue_inv_def pending_def)
      then have "N + failures opens \<le> FDESCS" using le False by simp
      then show ?thesis
        using qi' le fl by (simp add: leak_inv_def q')
    qed
  next
    case P_done
    then show ?thesis using step by (simp add: fopener_step_def)
  qed
qed

lemma leak_wcounter:
  assumes inv: "leak_inv opens N q" and step: "wcounter_step i q = Some q'"
  shows "leak_inv opens N q'"
proof -
  have qi: "queue_inv N q" using inv by (simp add: leak_inv_def)
  have qi': "queue_inv N q'" by (rule inv_wcounter [OF qi step])
  have i: "i < length (workers q)" using step by (simp add: wcounter_step_def split: if_splits)
  have p: "producer q' = producer q"
    using step by (auto simp: wcounter_step_def Let_def split: if_splits worker_pc.splits)
  have "fcount q' + free_ptr q' + in_flight q' + k \<le> FDESCS + next_ptr q'"
    if "fcount q + free_ptr q + in_flight q + k \<le> FDESCS + next_ptr q" for k
  proof (cases "workers q ! i")
    case W_claim
    have "in_flight q' = in_flight q + 1" by (rule in_flight_claim [OF step W_claim])
    then show ?thesis
      using that step i W_claim
      by (auto simp: wcounter_step_def Let_def split: if_splits)
  next
    case (W_have fd)
    have "in_flight q' + 1 = in_flight q" by (rule in_flight_have [OF step W_have])
    then show ?thesis
      using that step i W_have
      by (auto simp: wcounter_step_def split: if_splits)
  next
    case W_exit
    then show ?thesis using step i by (simp add: wcounter_step_def)
  qed
  then show ?thesis
    using inv qi' unfolding leak_inv_def p
    by (auto split: producer_pc.splits)
qed

lemma leak_sys_step:
  assumes step: "sys_step cfg dir visit t s = Next s'"
    and inv: "leak_inv (opens_of visit) (nat (nthreads cfg)) (queue_of s)"
  shows "leak_inv (opens_of visit) (nat (nthreads cfg)) (queue_of s')"
proof (cases t)
  case Main_thread
  then have "main_step cfg s = Next s'" using step by (simp add: sys_step_def)
  then show ?thesis using inv by (cases rule: main_step_cases) simp_all
next
  case Fopener_thread
  then have "fopener_sys_step cfg dir visit s = Next s'" using step by (simp add: sys_step_def)
  then show ?thesis
    using inv by (cases rule: fopener_sys_step_cases) (simp_all add: leak_fopener)
next
  case (Wcounter_thread i)
  then have "wcounter_sys_step cfg visit i s = Next s'" using step by (simp add: sys_step_def)
  then show ?thesis
    using inv by (cases rule: wcounter_sys_step_cases) (simp_all add: leak_wcounter)
qed

lemma leak_steps:
  "steps cfg dir visit sched s = Next s' \<Longrightarrow>
   leak_inv (opens_of visit) (nat (nthreads cfg)) (queue_of s) \<Longrightarrow>
   leak_inv (opens_of visit) (nat (nthreads cfg)) (queue_of s')"
proof (induction sched arbitrary: s)
  case Nil
  then show ?case by simp
next
  case (Cons t ts)
  then obtain s1 where s1: "sys_step cfg dir visit t s = Next s1"
    and rest: "steps cfg dir visit ts s1 = Next s'"
    by (auto split: step.splits)
  show ?case by (rule Cons.IH [OF rest leak_sys_step [OF s1 Cons.prems(2)]])
qed

lemma failures_opens_of: "failures (opens_of visit) = length (filter unopenable visit)"
proof -
  have "filter (\<lambda>fd. fd = -1) (opens_of visit)
      = map (\<lambda>k. open_file k (visit ! k)) (filter (\<lambda>k. unopenable (visit ! k)) [0..<length visit])"
    unfolding opens_of_def filter_map
    by (rule arg_cong [where f = "map _"], rule filter_cong)
       (auto simp: open_file_def unopenable_def split: source_file.splits)
  then have "failures (opens_of visit)
      = length (filter (\<lambda>k. unopenable (visit ! k)) [0..<length visit])"
    by (simp add: failures_def)
  also have "\<dots> = length (filter unopenable (map (\<lambda>k. visit ! k) [0..<length visit]))"
    by (simp add: filter_map comp_def)
  also have "map (\<lambda>k. visit ! k) [0..<length visit] = visit" by (rule map_nth)
  finally show ?thesis .
qed

text \<open>
  A run comes to the joins only when the failed opens and the end markers together fit
  into \<^verbatim>\<open>FDESCS\<close>: each failed \<^verbatim>\<open>open\<close> keeps its unit of \<^verbatim>\<open>fcount\<close>, and the end
  markers take one unit each before any worker can claim one.
\<close>

lemma joined_failed_opens:
  assumes run: "run_threads cfg dir files sched = Next s" and j: "joined s"
  shows "nat (nthreads cfg) + length (filter unopenable files) \<le> FDESCS"
proof -
  have "leak_inv (opens_of (rev files)) (nat (nthreads cfg)) (queue_of s)"
    using run unfolding run_threads_def
    by (rule leak_steps) (simp add: initial_system_def leak_init)
  then have "nat (nthreads cfg) + failures (opens_of (rev files)) \<le> FDESCS"
    using j by (simp add: leak_inv_def joined_def)
  moreover have "length (filter unopenable (rev files)) = length (filter unopenable files)"
    by (simp flip: rev_filter)
  ultimately show ?thesis by (simp add: failures_opens_of)
qed

text \<open>
  A run with more than \<^verbatim>\<open>MAXTHREADS\<close> workers does not come to the joins either:
  \<^verbatim>\<open>main\<close> leaves its start loop only below that bound.
\<close>

lemma joined_thread_count:
  assumes run: "run_threads cfg dir files sched = Next s" and j: "joined s"
  shows "nthreads cfg \<le> int MAXTHREADS"
proof -
  have "nat (nthreads cfg) \<le> MAXTHREADS"
    using merge_inv_run_threads [OF run] j
    by (simp add: merge_inv_def main_bound_def joined_def)
  then show ?thesis by linarith
qed

section \<open>Evaluation of runs\<close>

lemma file_count_fopener_found: "file_count (fopener_found cfg dir n g) = file_count g"
  by (simp add: fopener_found_def)




lemma tok_foo: "\<forall>x\<in>set ''foo''. token_chars x"
  by (simp add: token_chars_def token_str_def)

lemma foo_16384:
  "wcounter_file 16384 0 ''foo'' [] g = Inr (found 0 ''foo'' (scanned 3 g))"
  using wcounter_file_one_block [OF token_chars_space tok_foo, of 0 16384 0 "[]" g]
  by (simp add: numeral_3_eq_3)


lemma early_merge_schedule_list:
  "early_merge_schedule =
     [Main_thread, Main_thread,
      Fopener_thread, Fopener_thread, Fopener_thread, Fopener_thread, Fopener_thread,
      Fopener_thread,
      Wcounter_thread 0, Wcounter_thread 0, Wcounter_thread 0, Wcounter_thread 0,
      Wcounter_thread 0]"
  by (simp add: early_merge_schedule_def eval_nat_numeral)

lemma late_start_schedule_list:
  "late_start_schedule =
     [Main_thread, Main_thread,
      Fopener_thread, Fopener_thread, Fopener_thread, Fopener_thread, Fopener_thread,
      Fopener_thread,
      Wcounter_thread 0, Wcounter_thread 0, Wcounter_thread 0, Wcounter_thread 0,
      Wcounter_thread 0,
      Main_thread, Main_thread, Main_thread,
      Wcounter_thread 1, Wcounter_thread 1, Wcounter_thread 1]"
  by (simp add: late_start_schedule_def early_merge_schedule_list) (simp add: eval_nat_numeral)

lemma started_first_schedule_list:
  "started_first_schedule =
     [Main_thread, Main_thread, Main_thread, Main_thread, Main_thread,
      Fopener_thread, Fopener_thread, Fopener_thread, Fopener_thread, Fopener_thread,
      Fopener_thread,
      Wcounter_thread 0, Wcounter_thread 0, Wcounter_thread 0, Wcounter_thread 0,
      Wcounter_thread 1, Wcounter_thread 1, Wcounter_thread 1,
      Wcounter_thread 0, Wcounter_thread 0]"
  by (simp add: started_first_schedule_def eval_nat_numeral)

lemma replicate_two: "replicate 2 x = [x, x]"
  by (simp add: numeral_2_eq_2)

lemmas run_defs = replicate_two
  run_threads_def sys_step_def
  initial_system_def initial_queue_def opens_of_def open_file_def content_of_def
  main_step_def running_def fopener_sys_step_def fopener_step_def
  wcounter_sys_step_def wcounter_step_def release_own_def joined_def
  file_count_fopener_found initial_globals_def
  FDESCS_def MAXTHREADS_def BASICBLOCK_def Let_def

lemma run_early_merge:
  "run_threads parallel_config ''src'' [Opened ''a.c'' ''foo''] early_merge_schedule
   = Crashed (Null_dereference 1)"
  by (simp add: run_defs early_merge_schedule_list parallel_config_def default_config_def
      foo_16384)

lemma foo_table_report_2:
  "sort_totals (sequential_totals 2 ((replicate 64 RBT.empty)[0 := wc_add ''foo'' 1 RBT.empty]))
   = [((1, ''foo''), (''foo'', 1))]"
  by code_simp

lemma foo_table_merged:
  "sort_totals (merge_into RBT.empty (wc_add ''foo'' 1 RBT.empty))
   = [((1, ''foo''), (''foo'', 1))]"
  by code_simp

lemma run_late_start:
  "\<exists>s. run_threads two_workers_config ''src'' [Opened ''a.c'' ''foo''] late_start_schedule = Next s
       \<and> joined s
       \<and> globals_of s =
           \<lparr>sub_count = (replicate 64 RBT.empty)[0 := wc_add ''foo'' 1 RBT.empty],
            file_count = 1, expected_file_count = 1, blocks_scanned = 1, bytes_scanned = 3,
            stdout = [Found_files ''src'' 1]\<rparr>"
  by (simp add: run_defs late_start_schedule_list two_workers_config_def default_config_def
      foo_16384 found_def scanned_def fopener_found_def)

lemma run_started_first:
  "\<exists>s. run_threads parallel_config ''src'' [Opened ''a.c'' ''foo''] started_first_schedule = Next s
       \<and> joined s
       \<and> globals_of s =
           \<lparr>sub_count = (replicate 64 RBT.empty)
                           [0 := merge_into RBT.empty (wc_add ''foo'' 1 RBT.empty)],
            file_count = 1, expected_file_count = 1, blocks_scanned = 1, bytes_scanned = 3,
            stdout = [Found_files ''src'' 1]\<rparr>"
  by (simp add: run_defs started_first_schedule_list parallel_config_def default_config_def
      foo_16384 found_def scanned_def fopener_found_def)


text \<open>
  A silent run with \<^verbatim>\<open>-n0\<close> claims no file: both counters stay 0, and \<^verbatim>\<open>main\<close>
  returns with an empty report.
\<close>

lemma no_worker_schedule_list:
  "no_worker_schedule =
     [Main_thread, Fopener_thread, Fopener_thread, Fopener_thread, Fopener_thread]"
  by (simp add: no_worker_schedule_def eval_nat_numeral)

lemma sort_totals_empty: "sort_totals RBT.empty = []"
  by code_simp

lemma empty_report: "sort_totals (sequential_totals 0 sc) = []"
  by (simp add: sequential_totals_def sort_totals_empty)

lemma silent_run_without_workers:
  "program (silent_config\<lparr>nthreads := 0\<rparr>) ''src'' [Opened ''a.c'' ''foo''] no_worker_schedule
   = Finished (Returned [] [])"
  by (simp add: program_def run_defs no_worker_schedule_list silent_config_def
      default_config_def main_finish_def fopener_found_def empty_report)

text \<open>
  After 65536 reads of 65536 bytes (\<^verbatim>\<open>-b64\<close>), which are \<open>2^32\<close> bytes, the counter
  \<^verbatim>\<open>bytes_scanned\<close> reads 0 again.
\<close>

lemma scanned_funpow:
  "bytes_scanned ((scanned k ^^ n) g) = bytes_scanned g + of_nat (n * k)
   \<and> blocks_scanned ((scanned k ^^ n) g) = blocks_scanned g + of_nat n"
  by (induction n) (simp_all add: scanned_def algebra_simps)

lemma bytes_scanned_wraps:
  "bytes_scanned ((scanned 65536 ^^ 65536) initial_globals) = 0
   \<and> blocks_scanned ((scanned 65536 ^^ 65536) initial_globals) = 65536"
  by (simp add: scanned_funpow initial_globals_def)

section \<open>The parallel merge in a run (C3)\<close>

text \<open>
  C3. The two reductions give the same aggregate table in every run that comes to the
  joins (lemma \<open>aggregate_table_at_joins\<close>), but a run with the parallel merge need not
  come there. With \<^verbatim>\<open>-n2 -p\<close> over a directory with one file, the interleaving in
  which worker 0 reaches its merge loop before \<^verbatim>\<open>main\<close> has stored
  \<^verbatim>\<open>ready_for_merge[1]\<close> ends in \<^verbatim>\<open>ready_for_merge[1]->acquire()\<close> on a null
  pointer: the parallel merge leaves no aggregate table. With \<^verbatim>\<open>-n2\<close> alone the same
  interleaving, continued, comes to the sequential fold and prints the report.
\<close>

theorem parallel_merge_uses_null_semaphore:
  "program parallel_config ''src'' [Opened ''a.c'' ''foo''] early_merge_schedule
     = Crash (Null_dereference 1)
   \<and> program two_workers_config ''src'' [Opened ''a.c'' ''foo''] late_start_schedule
     = Finished (Returned [((1, ''foo''), (''foo'', 1))]
         [Found_files ''src'' 1, Blocks_scanned 1 3, Report_line ''foo'' 1])"
proof -
  obtain s where run: "run_threads two_workers_config ''src'' [Opened ''a.c'' ''foo''] late_start_schedule = Next s"
    and j: "joined s"
    and g: "globals_of s =
           \<lparr>sub_count = (replicate 64 RBT.empty)[0 := wc_add ''foo'' 1 RBT.empty],
            file_count = 1, expected_file_count = 1, blocks_scanned = 1, bytes_scanned = 3,
            stdout = [Found_files ''src'' 1]\<rparr>"
    using run_late_start by blast
  have c: "nat (nthreads two_workers_config) = 2" "\<not> parallel_merge two_workers_config"
    "\<not> silent two_workers_config"
    by (simp_all add: two_workers_config_def default_config_def)
  have "main_finish two_workers_config (globals_of s)
      = Returned [((1, ''foo''), (''foo'', 1))]
               [Found_files ''src'' 1, Blocks_scanned 1 3, Report_line ''foo'' 1]"
    unfolding main_finish_def g by (simp add: c foo_table_report_2 report_def)
  then show ?thesis
    using run j by (simp add: program_def run_early_merge)
qed

text \<open>
  When \<^verbatim>\<open>main\<close> has started both workers before worker 0 comes to its merge loop, the
  run with \<^verbatim>\<open>-n2 -p\<close> prints the same report.
\<close>

lemma parallel_merge_when_started_first:
  "program parallel_config ''src'' [Opened ''a.c'' ''foo''] started_first_schedule
     = Finished (Returned [((1, ''foo''), (''foo'', 1))]
         [Found_files ''src'' 1, Blocks_scanned 1 3, Report_line ''foo'' 1])"
proof -
  obtain s where run: "run_threads parallel_config ''src'' [Opened ''a.c'' ''foo''] started_first_schedule = Next s"
    and j: "joined s"
    and g: "globals_of s =
           \<lparr>sub_count = (replicate 64 RBT.empty)
                           [0 := merge_into RBT.empty (wc_add ''foo'' 1 RBT.empty)],
            file_count = 1, expected_file_count = 1, blocks_scanned = 1, bytes_scanned = 3,
            stdout = [Found_files ''src'' 1]\<rparr>"
    using run_started_first by blast
  have c: "parallel_merge parallel_config" "\<not> silent parallel_config"
    by (simp_all add: parallel_config_def default_config_def)
  have "main_finish parallel_config (globals_of s)
      = Returned [((1, ''foo''), (''foo'', 1))]
               [Found_files ''src'' 1, Blocks_scanned 1 3, Report_line ''foo'' 1]"
    unfolding main_finish_def g by (simp add: c foo_table_merged report_def)
  then show ?thesis
    using run j by (simp add: program_def)
qed

section \<open>The end of main (C9, C10)\<close>











end
